theory Spec2Isabelle
  imports Main
begin

section \<open>Shared enumerations\<close>

text \<open>
  The enumerations of \<^verbatim>\<open>cdc.service.ts\<close>. \<^verbatim>\<open>QueryMatchType.None\<close> would clash with the
  constructor of \<open>option\<close>, so the members of that enumeration carry the prefix \<open>Match\<close>.
  \<^verbatim>\<open>SearchCategoryType\<close> is a numeric TypeScript enum: its first member \<^verbatim>\<open>Demographic\<close>
  has the value 0, which is the only member that a truthiness test rejects.
\<close>

datatype SortDirection = Ascending | Descending

datatype QueryMatchType = MatchAny | MatchAll | MatchNone | MatchNoneAll

datatype SearchCategoryType = Demographic | Appointment | Measurement | Procedure

datatype QuestionType = SingleAnswer | MultipleChoiceSingleAnswer | Repeated

section \<open>The query tree container\<close>

text \<open>
  The \<^verbatim>\<open>Query\<close> interface of the container file. Both source files declare a type named
  \<^verbatim>\<open>Query\<close> with the same field names, so the fields of this one carry the prefix
  \<open>node_\<close>. The tree is owned through \<^verbatim>\<open>groups\<close>; the back-reference \<^verbatim>\<open>parent\<close> is never
  read by the container (the traversal passes the parent along), so it is not a field of
  the datatype. \<^verbatim>\<open>QueryFilter\<close> is imported from a package outside the repository and is
  a type parameter. The interface declares \<^verbatim>\<open>id: string\<close>, but \<^verbatim>\<open>indexTree\<close> tests it at
  run time; the model admits an undefined id as well as an empty one.
\<close>

datatype 'f QueryNode = QueryNode
  (node_id: "string option")
  (node_match: QueryMatchType)
  (node_category: "string option")
  (node_groups: "'f QueryNode list option")
  (node_filters: "'f list option")
  (node_sortDirection: "SortDirection option")
  (node_disabled: bool)

text \<open>The four private fields of the class, each initialised to the empty array.\<close>

record 'f QueryTreeContainer =
  c_groups :: "'f QueryNode list"
  c_terms :: "'f QueryNode list"
  c_parentTerms :: "'f QueryNode list"
  c_termsByNestedTerm :: "'f QueryNode list"

text \<open>JavaScript truthiness of an optional string: defined and not empty.\<close>

definition truthy :: "string option \<Rightarrow> bool" where
  "truthy s = (case s of None \<Rightarrow> False | Some v \<Rightarrow> v \<noteq> [])"

text \<open>
  \<^verbatim>\<open>indexTree(node?, parentNode?)\<close>, with the container object passed and returned.
  \<open>indexGroups\<close> is the \<^verbatim>\<open>for (const group of node.groups)\<close> loop.
\<close>

function indexTree ::
    "'f QueryNode option \<Rightarrow> 'f QueryNode option \<Rightarrow> 'f QueryTreeContainer \<Rightarrow> 'f QueryTreeContainer"
  and indexGroups ::
    "'f QueryNode list \<Rightarrow> 'f QueryNode \<Rightarrow> 'f QueryTreeContainer \<Rightarrow> 'f QueryTreeContainer"
where
  "indexTree None parentNode c = c"
| "indexTree (Some node) parentNode c =
    (let c1 =
       (if truthy (node_id node) then
          (if truthy (node_category node) then
             (let c' = c\<lparr>c_terms := c_terms c @ [node]\<rparr> in
              (case parentNode of
                 Some p \<Rightarrow>
                   if truthy (node_id p) \<and> truthy (node_category p)
                   then c'\<lparr>c_termsByNestedTerm := c_termsByNestedTerm c' @ [p]\<rparr>
                   else if \<not> node_disabled node
                   then c'\<lparr>c_parentTerms := c_parentTerms c' @ [node]\<rparr>
                   else c'
               | None \<Rightarrow>
                   if \<not> node_disabled node
                   then c'\<lparr>c_parentTerms := c_parentTerms c' @ [node]\<rparr>
                   else c'))
           else c\<lparr>c_groups := c_groups c @ [node]\<rparr>)
        else c)
     in (case node_groups node of
           None \<Rightarrow> c1
         | Some gs \<Rightarrow> if gs \<noteq> [] then indexGroups gs node c1 else c1))"
| "indexGroups [] parentNode c = c"
| "indexGroups (g # gs) parentNode c =
     indexGroups gs parentNode (indexTree (Some g) (Some parentNode) c)"
  by pat_completeness auto
termination
  apply (relation "measure (\<lambda>x. case x of
            Inl (n, p, c) \<Rightarrow> size_option size n
          | Inr (gs, p, c) \<Rightarrow> Suc (size_list size gs))")
  subgoal by simp
  subgoal for node parentNode c x gs by (cases node) simp
  subgoal by simp
  subgoal by simp
  done

text \<open>The constructor: fresh empty fields, then \<^verbatim>\<open>this.indexTree(rootNode)\<close>.\<close>

definition new_QueryTreeContainer :: "'f QueryNode option \<Rightarrow> 'f QueryTreeContainer" where
  "new_QueryTreeContainer rootNode =
     indexTree rootNode None
       \<lparr>c_groups = [], c_terms = [], c_parentTerms = [], c_termsByNestedTerm = []\<rparr>"

definition getAllTerms :: "'f QueryTreeContainer \<Rightarrow> 'f QueryNode list" where
  "getAllTerms c = c_terms c"

definition getParentTerms :: "'f QueryTreeContainer \<Rightarrow> 'f QueryNode list" where
  "getParentTerms c = c_parentTerms c"

definition getTerm :: "'f QueryTreeContainer \<Rightarrow> string \<Rightarrow> 'f QueryNode option" where
  "getTerm c termId = find (\<lambda>t. node_id t = Some termId) (c_terms c)"

definition getGroup :: "'f QueryTreeContainer \<Rightarrow> string \<Rightarrow> 'f QueryNode option" where
  "getGroup c groupId = find (\<lambda>t. node_id t = Some groupId) (c_groups c)"

definition getParentTerm :: "'f QueryTreeContainer \<Rightarrow> string \<Rightarrow> 'f QueryNode option" where
  "getParentTerm c termId = find (\<lambda>t. node_id t = Some termId) (c_termsByNestedTerm c)"

subsection \<open>The pre-order enumeration of a tree\<close>

text \<open>
  The children of a node (\<^verbatim>\<open>node.groups\<close>, none when the field is undefined), and every
  node of a tree paired with the parent the traversal reaches it from, parents before
  children and siblings left to right.
\<close>

definition children :: "'f QueryNode \<Rightarrow> 'f QueryNode list" where
  "children node = (case node_groups node of None \<Rightarrow> [] | Some gs \<Rightarrow> gs)"

function preorder :: "'f QueryNode \<Rightarrow> 'f QueryNode option \<Rightarrow> ('f QueryNode \<times> 'f QueryNode option) list"
  and preorders :: "'f QueryNode list \<Rightarrow> 'f QueryNode \<Rightarrow> ('f QueryNode \<times> 'f QueryNode option) list"
where
  "preorder node parentNode = (node, parentNode) # preorders (children node) node"
| "preorders [] parentNode = []"
| "preorders (g # gs) parentNode = preorder g (Some parentNode) @ preorders gs parentNode"
  by pat_completeness auto
termination
  apply (relation "measure (\<lambda>x. case x of
            Inl (n, p) \<Rightarrow> size n
          | Inr (gs, p) \<Rightarrow> Suc (size_list size gs))")
  subgoal by simp
  subgoal for node parentNode by (cases node) (auto simp: children_def split: option.splits)
  subgoal by simp
  subgoal by simp
  done

text \<open>The classification the spec words: term, group, parent term, nested term.\<close>

definition is_term :: "'f QueryNode \<Rightarrow> bool" where
  "is_term n = (truthy (node_id n) \<and> truthy (node_category n))"

definition is_group :: "'f QueryNode \<Rightarrow> bool" where
  "is_group n = (truthy (node_id n) \<and> \<not> truthy (node_category n))"

definition parent_is_term :: "'f QueryNode option \<Rightarrow> bool" where
  "parent_is_term p = (case p of None \<Rightarrow> False | Some q \<Rightarrow> is_term q)"

section \<open>The data collector query\<close>

text \<open>
  The file \<^verbatim>\<open>cdc.service.ts\<close> holds two versions of the service. The model follows the
  second, which has \<^verbatim>\<open>walkTree\<close>, the sort direction and the collected-children map; the
  first is the same code without them.

  The classes of \<^verbatim>\<open>cdc.service.ts\<close>. Query objects are mutated in place
  (\<^verbatim>\<open>sortDirection\<close>, \<^verbatim>\<open>groups\<close>) while the index maps and the parent index hold references
  to them, so they live in a store and are named by their address. Answers and questions
  are only read and are values. The field \<^verbatim>\<open>answers\<close> of \<^verbatim>\<open>Question\<close> is read only by the
  closing loop over \<^verbatim>\<open>questionCombinedQueries\<close>, which fills a local map and discards it;
  neither the field nor that loop is modelled. A category may be undefined
  (\<^verbatim>\<open>new Query()\<close> sets none).
\<close>

type_synonym addr = nat

record Section =
  section_id :: string

record Question =
  question_id :: string
  question_disabled :: bool
  questionType :: QuestionType
  question_sortDirection :: SortDirection

record Answer =
  answer_id :: string
  hidden :: bool
  question :: "Question option"
  query :: "addr option"

record Query =
  query_id :: string
  disabled :: bool
  collect :: bool
  parent :: "addr option"
  groups :: "addr list option"
  answer :: "Answer option"
  category :: "SearchCategoryType option"
  match :: "QueryMatchType option"
  sortDirection :: SortDirection

text \<open>
  What a call can throw: \<open>RangeError\<close> is the exhausted call stack of a recursion that
  does not end (the fuel of \<open>walkTree\<close>), \<open>TypeError\<close> a property read on
  \<^verbatim>\<open>undefined\<close>.
\<close>

datatype error = RangeError | TypeError

text \<open>The store of query objects and the three maps of the \<^verbatim>\<open>indexes\<close> argument.\<close>

record store =
  heap :: "addr \<Rightarrow> Query"
  termToAnswerMap :: "string \<rightharpoonup> Answer"
  answerToTermsMap :: "string \<rightharpoonup> addr list"
  collectedChildrenMap :: "string \<rightharpoonup> bool"

text \<open>
  \<^verbatim>\<open>addOneToMultiMap\<close>. An array is truthy even when empty, so the test is on the presence
  of the key. No array stored by it is pushed to after another object holds it, so arrays
  are values.
\<close>

definition addOneToMultiMap :: "('k \<rightharpoonup> 'v list) \<Rightarrow> 'k \<Rightarrow> 'v \<Rightarrow> ('k \<rightharpoonup> 'v list)" where
  "addOneToMultiMap m key v =
     (case m key of
        Some values \<Rightarrow> m(key \<mapsto> values @ [v])
      | None \<Rightarrow> m(key \<mapsto> [v]))"

text \<open>\<^verbatim>\<open>if (term.category)\<close>: undefined and the enum value 0 are falsy.\<close>

definition truthy_category :: "SearchCategoryType option \<Rightarrow> bool" where
  "truthy_category c = (case c of None \<Rightarrow> False | Some k \<Rightarrow> k \<noteq> Demographic)"

text \<open>\<^verbatim>\<open>tree.get(id) ?? []\<close>\<close>

definition get_or_empty :: "(string \<rightharpoonup> 'v list) \<Rightarrow> string \<Rightarrow> 'v list" where
  "get_or_empty tree k = (case tree k of None \<Rightarrow> [] | Some ts \<Rightarrow> ts)"

text \<open>
  \<^verbatim>\<open>walkTree\<close>; \<open>walkChildren\<close> is its loop over \<^verbatim>\<open>term.groups\<close>. The first argument bounds
  the depth of the recursion.
\<close>

fun walkTree ::
    "nat \<Rightarrow> addr \<Rightarrow> Answer \<Rightarrow> Question \<Rightarrow> (string \<rightharpoonup> addr list) \<Rightarrow> store \<Rightarrow> error + store"
  and walkChildren ::
    "nat \<Rightarrow> addr list \<Rightarrow> Answer \<Rightarrow> Question \<Rightarrow> (string \<rightharpoonup> addr list) \<Rightarrow> store \<Rightarrow> error + store"
where
  "walkTree 0 term ans qu tree s = Inl RangeError"
| "walkTree (Suc fuel) term ans qu tree s =
    (let termId = query_id (heap s term);
         s1 = s\<lparr>heap := (heap s)(term := (heap s term)\<lparr>sortDirection := question_sortDirection qu\<rparr>)\<rparr>;
         s2 = s1\<lparr>termToAnswerMap := (termToAnswerMap s1)(termId \<mapsto> ans)\<rparr>;
         s3 = s2\<lparr>answerToTermsMap := addOneToMultiMap (answerToTermsMap s2) (answer_id ans) term\<rparr>;
         s4 = s3\<lparr>heap := (heap s3)(term := (heap s3 term)
                  \<lparr>groups := Some (get_or_empty tree (query_id (heap s3 term)))\<rparr>)\<rparr>
     in case groups (heap s4 term) of
          None \<Rightarrow> Inl TypeError
        | Some gs \<Rightarrow>
            if disabled (heap s4 term) \<or> gs = [] then Inr s4
            else (case walkChildren fuel gs ans qu tree s4 of
                    Inl e \<Rightarrow> Inl e
                  | Inr s5 \<Rightarrow>
                      if truthy_category (category (heap s5 term)) then
                        (case groups (heap s5 term) of
                           None \<Rightarrow> Inl TypeError
                         | Some gs' \<Rightarrow>
                             (let collectedChildren = filter (\<lambda>v. collect (heap s5 v)) gs'
                              in Inr (s5\<lparr>collectedChildrenMap :=
                                   (collectedChildrenMap s5)
                                     (query_id (heap s5 term) \<mapsto> collectedChildren \<noteq> [])\<rparr>)))
                      else Inr s5))"
| "walkChildren fuel [] ans qu tree s = Inr s"
| "walkChildren fuel (child # rest) ans qu tree s =
    (if disabled (heap s child) then walkChildren fuel rest ans qu tree s
     else (case walkTree fuel child ans qu tree s of
             Inl e \<Rightarrow> Inl e
           | Inr s' \<Rightarrow> walkChildren fuel rest ans qu tree s'))"

text \<open>
  \<^verbatim>\<open>buildQueryTree\<close>: the loop over the fetched nodes, then the function. A node is
  skipped when \<^verbatim>\<open>term.parent?.id\<close> is falsy: no parent, or a parent with an empty id.
\<close>

fun buildLoop ::
    "(addr \<Rightarrow> Query) \<Rightarrow> addr list \<Rightarrow> (string \<rightharpoonup> addr list) \<times> (string \<rightharpoonup> addr)
      \<Rightarrow> (string \<rightharpoonup> addr list) \<times> (string \<rightharpoonup> addr)"
where
  "buildLoop h [] (tree, termMap) = (tree, termMap)"
| "buildLoop h (term # rest) (tree, termMap) =
    (case parent (h term) of
       None \<Rightarrow> buildLoop h rest (tree, termMap)
     | Some p \<Rightarrow>
         if query_id (h p) = [] then buildLoop h rest (tree, termMap)
         else buildLoop h rest
                (addOneToMultiMap tree (query_id (h p)) term,
                 termMap(query_id (h term) \<mapsto> term)))"

definition buildQueryTree ::
    "(addr \<Rightarrow> Query) \<Rightarrow> addr list \<Rightarrow> (string \<rightharpoonup> addr list) \<times> (string \<rightharpoonup> addr)" where
  "buildQueryTree h terms = buildLoop h terms (Map.empty, Map.empty)"

text \<open>
  The root set. \<open>answerRootQuery\<close> is the callback of \<^verbatim>\<open>answers.map\<close>, and
  \<open>rootQueries\<close> adds the \<^verbatim>\<open>filter\<close> on \<^verbatim>\<open>Boolean(query)\<close>.
\<close>

definition answerRootQuery :: "(string \<rightharpoonup> Question) \<Rightarrow> Answer \<Rightarrow> addr option" where
  "answerRootQuery questionMap a =
     (case question a of
        Some aq \<Rightarrow>
          if hidden a then
            (if map_option questionType (questionMap (question_id aq))
                  \<noteq> Some MultipleChoiceSingleAnswer
             then None
             else query a)
          else query a
      | None \<Rightarrow> query a)"

definition rootQueries :: "(string \<rightharpoonup> Question) \<Rightarrow> Answer list \<Rightarrow> addr list" where
  "rootQueries questionMap answers =
     map the (filter (\<lambda>q. q \<noteq> None) (map (answerRootQuery questionMap) answers))"

text \<open>
  The loop over the root queries. \<open>resolveAnswer\<close> and \<open>resolveQuestion\<close> are the two
  conditional expressions at its head; \<open>walkRootGroups\<close> is the inner loop, which calls
  \<^verbatim>\<open>walkTree\<close> on every child of the root, disabled or not. The accumulator holds the
  store, \<^verbatim>\<open>combinedQuery.groups\<close> and \<^verbatim>\<open>questionCombinedQueries\<close>. The answer map is the
  list of its entries in insertion order.
\<close>

definition resolveAnswer :: "(string \<times> Answer) list \<Rightarrow> Query \<Rightarrow> Answer option" where
  "resolveAnswer answerMap rootQuery =
     (case answer rootQuery of
        None \<Rightarrow> None
      | Some ra \<Rightarrow> map_of answerMap (answer_id ra))"

definition resolveQuestion :: "(string \<rightharpoonup> Question) \<Rightarrow> Answer option \<Rightarrow> Question option" where
  "resolveQuestion questionMap a =
     (case a of
        None \<Rightarrow> None
      | Some a' \<Rightarrow>
          (case question a' of
             None \<Rightarrow> None
           | Some aq \<Rightarrow> questionMap (question_id aq)))"

fun walkRootGroups ::
    "nat \<Rightarrow> addr list \<Rightarrow> Answer \<Rightarrow> Question \<Rightarrow> (string \<rightharpoonup> addr list) \<Rightarrow> store \<Rightarrow> error + store"
where
  "walkRootGroups fuel [] ans qu tree s = Inr s"
| "walkRootGroups fuel (term # rest) ans qu tree s =
    (case walkTree fuel term ans qu tree s of
       Inl e \<Rightarrow> Inl e
     | Inr s' \<Rightarrow> walkRootGroups fuel rest ans qu tree s')"

fun rootLoop ::
    "nat \<Rightarrow> addr list \<Rightarrow> (string \<times> Answer) list \<Rightarrow> (string \<rightharpoonup> Question)
      \<Rightarrow> (string \<rightharpoonup> addr list) \<Rightarrow> store \<times> addr list \<times> (string \<rightharpoonup> addr list)
      \<Rightarrow> error + store \<times> addr list \<times> (string \<rightharpoonup> addr list)"
where
  "rootLoop fuel [] answerMap questionMap tree acc = Inr acc"
| "rootLoop fuel (rootQuery # rest) answerMap questionMap tree (s, combinedGroups, qcq) =
    (let a = resolveAnswer answerMap (heap s rootQuery);
         q = resolveQuestion questionMap a
     in case (a, q) of
          (Some ans, Some qu) \<Rightarrow>
            (let combinedGroups' = combinedGroups @ [rootQuery];
                 gs = get_or_empty tree (query_id (heap s rootQuery));
                 s1 = s\<lparr>heap := (heap s)(rootQuery := (heap s rootQuery)\<lparr>groups := Some gs\<rparr>)\<rparr>
             in case walkRootGroups fuel gs ans qu tree s1 of
                  Inl e \<Rightarrow> Inl e
                | Inr s2 \<Rightarrow>
                    rootLoop fuel rest answerMap questionMap tree
                      (s2, combinedGroups', addOneToMultiMap qcq (question_id qu) rootQuery))
        | _ \<Rightarrow> rootLoop fuel rest answerMap questionMap tree (s, combinedGroups, qcq))"

text \<open>
  \<^verbatim>\<open>getDataCollectorQuery\<close>. The body of \<^verbatim>\<open>getSectionsQuestionsAndAnswers\<close> is omitted in
  the source and \<^verbatim>\<open>QueryRepository\<close> is an interface, so the loader and the repository are
  parameters. The result is the returned tuple, together with the store as the call leaves
  it and the list of the arguments \<^verbatim>\<open>findDescendantsForEntities\<close> was called with. The
  combined root is a \<^verbatim>\<open>new Query()\<close> of which only \<^verbatim>\<open>match\<close> and \<^verbatim>\<open>groups\<close> are set.
\<close>

record QueryRepository =
  findDescendantsForEntities :: "addr list \<Rightarrow> addr list"

record CombinedQuery =
  combined_match :: QueryMatchType
  combined_groups :: "addr list"

record DataCollectorQuery =
  res_combinedQuery :: "CombinedQuery option"
  res_answerToTermsMap :: "string \<rightharpoonup> addr list"
  res_termToAnswerMap :: "string \<rightharpoonup> Answer"
  res_answerMap :: "(string \<times> Answer) list"
  res_terms :: "addr list"
  res_termMap :: "string \<rightharpoonup> addr"
  res_collectedChildrenMap :: "string \<rightharpoonup> bool"
  res_sectionMap :: "string \<rightharpoonup> Section"
  res_heap :: "addr \<Rightarrow> Query"
  res_repositoryCalls :: "addr list list"

definition getDataCollectorQuery ::
    "nat \<Rightarrow> (string \<Rightarrow> (string \<rightharpoonup> Section) \<times> (string \<rightharpoonup> Question) \<times> (string \<times> Answer) list)
      \<Rightarrow> (addr \<Rightarrow> Query) \<Rightarrow> string \<Rightarrow> QueryRepository \<Rightarrow> error + DataCollectorQuery" where
  "getDataCollectorQuery fuel getSectionsQuestionsAndAnswers h projectId queryRepository =
     (case getSectionsQuestionsAndAnswers projectId of
        (sectionMap, questionMap, answerMap) \<Rightarrow>
          (let answers = map snd answerMap;
               rqs = rootQueries questionMap answers
           in if rqs = [] then
                Inr \<lparr>res_combinedQuery = None,
                     res_answerToTermsMap = Map.empty,
                     res_termToAnswerMap = Map.empty,
                     res_answerMap = answerMap,
                     res_terms = [],
                     res_termMap = Map.empty,
                     res_collectedChildrenMap = Map.empty,
                     res_sectionMap = sectionMap,
                     res_heap = h,
                     res_repositoryCalls = []\<rparr>
              else
                (let terms = findDescendantsForEntities queryRepository rqs in
                 case buildQueryTree h terms of
                   (tree, termMap) \<Rightarrow>
                     (case rootLoop fuel rqs answerMap questionMap tree
                             (\<lparr>heap = h, termToAnswerMap = Map.empty,
                               answerToTermsMap = Map.empty,
                               collectedChildrenMap = Map.empty\<rparr>, [], Map.empty) of
                        Inl e \<Rightarrow> Inl e
                      | Inr (s, combinedGroups, qcq) \<Rightarrow>
                          Inr \<lparr>res_combinedQuery =
                                 Some \<lparr>combined_match = MatchAny, combined_groups = combinedGroups\<rparr>,
                               res_answerToTermsMap = answerToTermsMap s,
                               res_termToAnswerMap = termToAnswerMap s,
                               res_answerMap = answerMap,
                               res_terms = terms,
                               res_termMap = termMap,
                               res_collectedChildrenMap = collectedChildrenMap s,
                               res_sectionMap = sectionMap,
                               res_heap = heap s,
                               res_repositoryCalls = [rqs]\<rparr>))))"

section \<open>Vocabulary of the properties\<close>

subsection \<open>Root inclusion\<close>

text \<open>
  The exclusion rule of the root set in the spec's words: an answer is left out when it is
  hidden and the type of its owning question is not \<^verbatim>\<open>MultipleChoiceSingleAnswer\<close>. The
  type is the one of the question that the answer's question reference resolves to in the
  question map; a reference that resolves to nothing has no such type, which is a type
  other than \<^verbatim>\<open>MultipleChoiceSingleAnswer\<close>. An answer without a question reference has
  no owning question, and the condition on the type of the owning question does not hold
  of it.
\<close>

definition question_not_multiple_choice :: "(string \<rightharpoonup> Question) \<Rightarrow> Answer \<Rightarrow> bool" where
  "question_not_multiple_choice questionMap a =
     (case question a of
        None \<Rightarrow> False
      | Some aq \<Rightarrow>
          (case questionMap (question_id aq) of
             None \<Rightarrow> True
           | Some q \<Rightarrow> questionType q \<noteq> MultipleChoiceSingleAnswer))"

definition root_included :: "(string \<rightharpoonup> Question) \<Rightarrow> Answer \<Rightarrow> bool" where
  "root_included questionMap a =
     (query a \<noteq> None \<and> \<not> (hidden a \<and> question_not_multiple_choice questionMap a))"

subsection \<open>The parent index\<close>

text \<open>
  A fetched node has a resolvable parent id when it has a parent and the id of the parent
  is not empty; \<open>parent_id\<close> is that id. \<open>without_orphans\<close> is a repository that
  returns what the given one returns, less the nodes without a resolvable parent id.
\<close>

definition resolvable_parent :: "(addr \<Rightarrow> Query) \<Rightarrow> addr \<Rightarrow> bool" where
  "resolvable_parent h t =
     (case parent (h t) of None \<Rightarrow> False | Some p \<Rightarrow> query_id (h p) \<noteq> [])"

definition parent_id :: "(addr \<Rightarrow> Query) \<Rightarrow> addr \<Rightarrow> string" where
  "parent_id h t = (case parent (h t) of None \<Rightarrow> [] | Some p \<Rightarrow> query_id (h p))"

definition without_orphans :: "(addr \<Rightarrow> Query) \<Rightarrow> QueryRepository \<Rightarrow> QueryRepository" where
  "without_orphans h queryRepository =
     queryRepository\<lparr>findDescendantsForEntities :=
        (\<lambda>rqs. filter (resolvable_parent h) (findDescendantsForEntities queryRepository rqs))\<rparr>"

subsection \<open>The nodes a walk visits\<close>

text \<open>
  \<open>visited qu tree x\<close> is the object \<open>x\<close> as a call of \<^verbatim>\<open>walkTree\<close> leaves it: the sort
  direction of the question and the children of the parent index. \<open>walked tree h t n\<close> says
  that a call of \<^verbatim>\<open>walkTree\<close> on \<open>t\<close> leads to a call on \<open>n\<close>: the call on \<open>t\<close> itself, and
  from a node that is not disabled the calls on its children that are not disabled. A node
  is \<open>active\<close> when the walk writes its entry of the collected-children map.
\<close>

definition visited :: "Question \<Rightarrow> (string \<rightharpoonup> addr list) \<Rightarrow> Query \<Rightarrow> Query" where
  "visited qu tree x =
     x\<lparr>sortDirection := question_sortDirection qu,
       groups := Some (get_or_empty tree (query_id x))\<rparr>"

inductive walked :: "(string \<rightharpoonup> addr list) \<Rightarrow> (addr \<Rightarrow> Query) \<Rightarrow> addr \<Rightarrow> addr \<Rightarrow> bool"
  for tree :: "string \<rightharpoonup> addr list" and h :: "addr \<Rightarrow> Query"
where
  walked_self: "walked tree h t t"
| walked_child:
    "\<not> disabled (h t) \<Longrightarrow> c \<in> set (get_or_empty tree (query_id (h t))) \<Longrightarrow> \<not> disabled (h c)
       \<Longrightarrow> walked tree h c n \<Longrightarrow> walked tree h t n"

code_pred walked .

definition active :: "(string \<rightharpoonup> addr list) \<Rightarrow> Query \<Rightarrow> bool" where
  "active tree x =
     (\<not> disabled x \<and> get_or_empty tree (query_id x) \<noteq> [] \<and> truthy_category (category x))"

text \<open>
  The answer and question that a root query resolves to (the head of the root loop), the
  nodes walked from the children of a root, and the parent index the call builds from the
  fetched descendants.
\<close>

definition resolved ::
  "(string \<times> Answer) list \<Rightarrow> (string \<rightharpoonup> Question) \<Rightarrow> (addr \<Rightarrow> Query) \<Rightarrow> addr \<Rightarrow> (Answer \<times> Question) option" where
  "resolved answerMap questionMap h r =
     (case resolveAnswer answerMap (h r) of
        None \<Rightarrow> None
      | Some a \<Rightarrow>
          (case resolveQuestion questionMap (Some a) of
             None \<Rightarrow> None
           | Some q \<Rightarrow> Some (a, q)))"

definition rootWalked :: "(string \<rightharpoonup> addr list) \<Rightarrow> (addr \<Rightarrow> Query) \<Rightarrow> addr \<Rightarrow> addr set" where
  "rootWalked tree h r = {n. \<exists>c \<in> set (get_or_empty tree (query_id (h r))). walked tree h c n}"

definition parentIndex :: "(addr \<Rightarrow> Query) \<Rightarrow> QueryRepository \<Rightarrow> addr list \<Rightarrow> (string \<rightharpoonup> addr list)" where
  "parentIndex h queryRepository rqs =
     fst (buildQueryTree h (findDescendantsForEntities queryRepository rqs))"

subsection \<open>Input on which the walk returns\<close>

text \<open>
  The walk recurses once per level of the parent index and fails when the stack, here the
  fuel, is exhausted. \<open>walk_fits d tree h t\<close> says that the walk of \<open>t\<close> needs at most \<open>d\<close>
  nested calls. \<open>ranked tree h nodes rank\<close> says that the parent index is acyclic on the
  given nodes as far as the walk follows it: every child that is not disabled of a node
  that is not disabled has a smaller rank than the node.
\<close>

fun walk_fits :: "nat \<Rightarrow> (string \<rightharpoonup> addr list) \<Rightarrow> (addr \<Rightarrow> Query) \<Rightarrow> addr \<Rightarrow> bool" where
  "walk_fits 0 tree h t = False"
| "walk_fits (Suc d) tree h t =
     (disabled (h t) \<or>
      (\<forall>c \<in> set (get_or_empty tree (query_id (h t))). disabled (h c) \<or> walk_fits d tree h c))"

definition ranked ::
  "(string \<rightharpoonup> addr list) \<Rightarrow> (addr \<Rightarrow> Query) \<Rightarrow> addr list \<Rightarrow> (addr \<Rightarrow> nat) \<Rightarrow> bool" where
  "ranked tree h nodes rank =
     (\<forall>t \<in> set nodes. \<not> disabled (h t) \<longrightarrow>
        (\<forall>c \<in> set (get_or_empty tree (query_id (h t))). \<not> disabled (h c) \<longrightarrow> rank c < rank t))"

subsection \<open>The effect of a walk on the store\<close>

text \<open>
  \<open>effect W C a q tree s s'\<close> describes the store \<open>s'\<close> after walks that visited the nodes
  \<open>W\<close> for the answer \<open>a\<close> and the question \<open>q\<close>, started in \<open>s\<close>, where the nodes \<open>C\<close> wrote
  their collected-children entry. \<open>enter\<close> is the prologue of \<^verbatim>\<open>walkTree\<close>, up to the test on
  \<^verbatim>\<open>term.disabled\<close>. \<open>fixed_same\<close> relates two stores of objects that differ at most in the two
  fields the code assigns. \<open>indexed\<close> is the effect of the whole root loop on the three index
  maps, for a set of (answer, question, node) visits.
\<close>

definition effect ::
  "addr set \<Rightarrow> addr set \<Rightarrow> Answer \<Rightarrow> Question \<Rightarrow> (string \<rightharpoonup> addr list) \<Rightarrow> store \<Rightarrow> store \<Rightarrow> bool" where
  "effect W C a q tree s s' =
    ((\<forall>n. heap s' n = (if n \<in> W then visited q tree (heap s n) else heap s n)) \<and>
     (\<forall>k. termToAnswerMap s' k =
            (if k \<in> (\<lambda>n. query_id (heap s n)) ` W then Some a else termToAnswerMap s k)) \<and>
     (\<exists>vs. set vs = W \<and>
        answerToTermsMap s' =
          (if vs = [] then answerToTermsMap s
           else (answerToTermsMap s)
                  (answer_id a \<mapsto> get_or_empty (answerToTermsMap s) (answer_id a) @ vs))) \<and>
     (\<forall>k. collectedChildrenMap s' k =
            (if k \<in> (\<lambda>n. query_id (heap s n)) ` C
             then Some (\<exists>c \<in> set (get_or_empty tree k). collect (heap s c))
             else collectedChildrenMap s k)))"

definition enter :: "addr \<Rightarrow> Answer \<Rightarrow> Question \<Rightarrow> (string \<rightharpoonup> addr list) \<Rightarrow> store \<Rightarrow> store" where
  "enter t a q tree s =
     s\<lparr>termToAnswerMap := (termToAnswerMap s)(query_id (heap s t) \<mapsto> a),
       answerToTermsMap := addOneToMultiMap (answerToTermsMap s) (answer_id a) t,
       heap := (heap s)(t := visited q tree (heap s t))\<rparr>"

definition walkedSet :: "(string \<rightharpoonup> addr list) \<Rightarrow> (addr \<Rightarrow> Query) \<Rightarrow> addr \<Rightarrow> addr set" where
  "walkedSet tree h t = {n. walked tree h t n}"

definition enabledWalked :: "(string \<rightharpoonup> addr list) \<Rightarrow> (addr \<Rightarrow> Query) \<Rightarrow> addr list \<Rightarrow> addr set" where
  "enabledWalked tree h cs = {n. \<exists>c \<in> set cs. \<not> disabled (h c) \<and> walked tree h c n}"

definition activeIn :: "(string \<rightharpoonup> addr list) \<Rightarrow> (addr \<Rightarrow> Query) \<Rightarrow> addr set \<Rightarrow> addr set" where
  "activeIn tree h W = {n \<in> W. active tree (h n)}"

definition fixed_same :: "(addr \<Rightarrow> Query) \<Rightarrow> (addr \<Rightarrow> Query) \<Rightarrow> bool" where
  "fixed_same h h' =
     (\<forall>n. h' n = (h n)\<lparr>groups := groups (h' n), sortDirection := sortDirection (h' n)\<rparr>)"

definition walkedBy ::
  "(string \<times> Answer) list \<Rightarrow> (string \<rightharpoonup> Question) \<Rightarrow> (string \<rightharpoonup> addr list) \<Rightarrow> (addr \<Rightarrow> Query)
     \<Rightarrow> addr list \<Rightarrow> ((Answer \<times> Question) \<times> addr) set" where
  "walkedBy am qm tree h rs =
     {((a, q), n). \<exists>r \<in> set rs. resolved am qm h r = Some (a, q) \<and> n \<in> rootWalked tree h r}"

definition indexed ::
  "((Answer \<times> Question) \<times> addr) set \<Rightarrow> (string \<rightharpoonup> addr list) \<Rightarrow> store \<Rightarrow> store \<Rightarrow> bool" where
  "indexed T tree s s' =
    (fixed_same (heap s) (heap s') \<and>
     (\<forall>k. collectedChildrenMap s' k =
            (if \<exists>a q n. ((a, q), n) \<in> T \<and> query_id (heap s n) = k \<and> active tree (heap s n)
             then Some (\<exists>c \<in> set (get_or_empty tree k). collect (heap s c))
             else collectedChildrenMap s k)) \<and>
     (\<forall>k. set (get_or_empty (answerToTermsMap s') k) =
            set (get_or_empty (answerToTermsMap s) k) \<union> {n. \<exists>a q. ((a, q), n) \<in> T \<and> answer_id a = k}) \<and>
     (\<forall>k. (termToAnswerMap s' k = None) =
            (termToAnswerMap s k = None \<and> \<not> (\<exists>a q n. ((a, q), n) \<in> T \<and> query_id (heap s n) = k))) \<and>
     (\<forall>k a. termToAnswerMap s' k = Some a \<longrightarrow>
            termToAnswerMap s k = Some a \<or> (\<exists>q n. ((a, q), n) \<in> T \<and> query_id (heap s n) = k)))"

definition initial_store :: "(addr \<Rightarrow> Query) \<Rightarrow> store" where
  "initial_store h =
     \<lparr>heap = h, termToAnswerMap = Map.empty, answerToTermsMap = Map.empty,
      collectedChildrenMap = Map.empty\<rparr>"

subsection \<open>The container as a classification of the pre-order enumeration\<close>

text \<open>
  The classification as the spec words it, on the enumeration of the tree: the terms, the
  groups, the parent terms, and for each term inside a term the enclosing term.
  \<open>container_append\<close> appends two containers list by list.
\<close>

definition classified :: "('f QueryNode \<times> 'f QueryNode option) list \<Rightarrow> 'f QueryTreeContainer" where
  "classified occ =
     \<lparr>c_groups = map fst (filter (\<lambda>(n, p). is_group n) occ),
      c_terms = map fst (filter (\<lambda>(n, p). is_term n) occ),
      c_parentTerms =
        map fst (filter (\<lambda>(n, p). is_term n \<and> \<not> parent_is_term p \<and> \<not> node_disabled n) occ),
      c_termsByNestedTerm =
        map (\<lambda>(n, p). the p) (filter (\<lambda>(n, p). is_term n \<and> parent_is_term p) occ)\<rparr>"

definition container_append :: "'f QueryTreeContainer \<Rightarrow> 'f QueryTreeContainer \<Rightarrow> 'f QueryTreeContainer" where
  "container_append c d =
     \<lparr>c_groups = c_groups c @ c_groups d,
      c_terms = c_terms c @ c_terms d,
      c_parentTerms = c_parentTerms c @ c_parentTerms d,
      c_termsByNestedTerm = c_termsByNestedTerm c @ c_termsByNestedTerm d\<rparr>"

section \<open>Example data\<close>

text \<open>
  A project with two questions and three answers. Answer \<open>answer1\<close> owns the root query at
  address 5, whose subtree is the criterion \<open>t\<close> (10) with the children \<open>c\<close> (11) and the
  disabled \<open>d\<close> (12, itself the parent of 13), and the disabled criterion \<open>x\<close> (14) with the
  child 15. The hidden answer \<open>answer2\<close> of a multiple-choice question owns the root at 6 with the
  leaf criterion \<open>u\<close> (20). The hidden answer \<open>answer3\<close> of a single-answer question owns the
  root at 7. Node 16 has no parent.
\<close>

definition q_single :: Question where
  "q_single = \<lparr>question_id = ''q1'', question_disabled = False,
               questionType = SingleAnswer, question_sortDirection = Descending\<rparr>"

definition q_multi :: Question where
  "q_multi = \<lparr>question_id = ''q2'', question_disabled = False,
               questionType = MultipleChoiceSingleAnswer, question_sortDirection = Ascending\<rparr>"

definition qm_example :: "string \<rightharpoonup> Question" where
  "qm_example = [''q1'' \<mapsto> q_single, ''q2'' \<mapsto> q_multi]"

definition answer1 :: Answer where
  "answer1 = \<lparr>answer_id = ''answer1'', hidden = False, question = Some q_single, query = Some 5\<rparr>"

definition answer2 :: Answer where
  "answer2 = \<lparr>answer_id = ''answer2'', hidden = True, question = Some q_multi, query = Some 6\<rparr>"

definition answer3 :: Answer where
  "answer3 = \<lparr>answer_id = ''answer3'', hidden = True, question = Some q_single, query = Some 7\<rparr>"

definition am_example :: "(string \<times> Answer) list" where
  "am_example = [(''answer1'', answer1), (''answer2'', answer2), (''answer3'', answer3)]"

definition query_node :: "string \<Rightarrow> addr option \<Rightarrow> Query" where
  "query_node i p = \<lparr>query_id = i, disabled = False, collect = False, parent = p, groups = None,
              answer = None, category = None, match = None, sortDirection = Ascending\<rparr>"

definition heap_example :: "addr \<Rightarrow> Query" where
  "heap_example =
     (\<lambda>_. query_node ''nil'' None)
       (5 := (query_node ''r1'' None)\<lparr>answer := Some answer1\<rparr>,
        6 := (query_node ''r2'' None)\<lparr>answer := Some answer2\<rparr>,
        7 := (query_node ''r3'' None)\<lparr>answer := Some answer3\<rparr>,
        10 := (query_node ''t'' (Some 5))\<lparr>category := Some Measurement\<rparr>,
        11 := (query_node ''c'' (Some 10))\<lparr>category := Some Measurement, collect := True\<rparr>,
        12 := (query_node ''d'' (Some 10))\<lparr>category := Some Measurement, disabled := True\<rparr>,
        13 := (query_node ''dd'' (Some 12))\<lparr>category := Some Measurement\<rparr>,
        14 := (query_node ''x'' (Some 5))\<lparr>category := Some Measurement, disabled := True\<rparr>,
        15 := (query_node ''xc'' (Some 14))\<lparr>category := Some Measurement, collect := True\<rparr>,
        16 := (query_node ''o'' None)\<lparr>category := Some Procedure\<rparr>,
        20 := (query_node ''u'' (Some 6))\<lparr>category := Some Appointment\<rparr>)"

definition repo_example :: QueryRepository where
  "repo_example = \<lparr>findDescendantsForEntities = (\<lambda>_. [10, 11, 12, 13, 14, 15, 16, 20])\<rparr>"

definition load_example ::
  "string \<Rightarrow> (string \<rightharpoonup> Section) \<times> (string \<rightharpoonup> Question) \<times> (string \<times> Answer) list" where
  "load_example projectId = (Map.empty, qm_example, am_example)"

definition load_hidden_only ::
  "string \<Rightarrow> (string \<rightharpoonup> Section) \<times> (string \<rightharpoonup> Question) \<times> (string \<times> Answer) list" where
  "load_hidden_only projectId = (Map.empty, qm_example, [(''answer3'', answer3)])"

definition example_run :: "error + DataCollectorQuery" where
  "example_run = getDataCollectorQuery (Suc (Suc (Suc 0))) load_example heap_example ''p'' repo_example"

definition tree_example :: "string \<rightharpoonup> addr list" where
  "tree_example =
     [''r1'' \<mapsto> [10, 14], ''t'' \<mapsto> [11, 12], ''d'' \<mapsto> [13], ''x'' \<mapsto> [15], ''r2'' \<mapsto> [20]]"

definition rank_example :: "addr \<Rightarrow> nat" where
  "rank_example n = (if n = 10 then 1 else 0)"

text \<open>
  The example tree of the repository's README,
  \<^verbatim>\<open>(medication OR measurement) AND NOT report\<close>, with a criterion nested in the measurement
  and a disabled report; a node with an empty id that has a category and a child; and a node
  without id over the medication, the measurement with its nested criterion, and the
  negated report.
\<close>

definition term_node :: "string \<Rightarrow> string \<Rightarrow> unit QueryNode list \<Rightarrow> unit QueryNode" where
  "term_node i c gs =
     QueryNode (Some i) MatchAll (Some c) (if gs = [] then None else Some gs) None None False"

definition group_node :: "string \<Rightarrow> QueryMatchType \<Rightarrow> unit QueryNode list \<Rightarrow> unit QueryNode" where
  "group_node i m gs = QueryNode (Some i) m None (Some gs) None None False"

definition medication :: "unit QueryNode" where
  "medication = term_node ''med'' ''medication'' []"

definition unit_term :: "unit QueryNode" where
  "unit_term = term_node ''unit'' ''measurement'' []"

definition measurement :: "unit QueryNode" where
  "measurement = term_node ''ldl'' ''measurement'' [unit_term]"

definition report :: "unit QueryNode" where
  "report = QueryNode (Some ''rep'') MatchAll (Some ''report'') None None None True"

definition anonymous :: "unit QueryNode" where
  "anonymous = QueryNode (Some []) MatchAll (Some ''procedure'') (Some [medication]) None None False"

definition any_group :: "unit QueryNode" where
  "any_group = group_node ''any'' MatchAny [medication, measurement]"

definition not_group :: "unit QueryNode" where
  "not_group = group_node ''not'' MatchNone [report]"

definition tree_root :: "unit QueryNode" where
  "tree_root = group_node ''all'' MatchAll [any_group, not_group]"

definition anonymous_wide :: "unit QueryNode" where
  "anonymous_wide =
     QueryNode None MatchAll (Some ''procedure'') (Some [medication, measurement, not_group])
       None None False"

section \<open>The root set\<close>

lemma answerRootQuery_eq:
  "answerRootQuery questionMap a = (if root_included questionMap a then query a else None)"
  by (auto simp: answerRootQuery_def root_included_def question_not_multiple_choice_def
           split: option.splits)

lemma rootQueries_filter:
  "rootQueries questionMap answers =
     map (\<lambda>a. the (query a)) (filter (root_included questionMap) answers)"
  unfolding rootQueries_def
  by (induction answers) (auto simp: answerRootQuery_eq root_included_def)

text \<open>
  C1. An answer contributes its query to the root set if and only if it has a query and it
  is not the case that it is hidden while the type of its owning question is not
  \<^verbatim>\<open>MultipleChoiceSingleAnswer\<close>; the root set is the list of the queries of the answers
  that contribute, in the order of the answers.
\<close>

theorem root_set_rule:
  "(\<exists>q. answerRootQuery questionMap a = Some q \<and> query a = Some q)
     = (query a \<noteq> None \<and> \<not> (hidden a \<and> question_not_multiple_choice questionMap a))
   \<and> rootQueries questionMap answers
       = map (\<lambda>a. the (query a)) (filter (root_included questionMap) answers)"
  using rootQueries_filter [of questionMap answers] answerRootQuery_eq [of questionMap a]
  by (auto simp: root_included_def)

text \<open>
  C1 on the example: the visible answer and the hidden answer of the multiple-choice
  question contribute, the hidden answer of the single-answer question does not.
\<close>

theorem root_set_rule_witness:
  "root_included qm_example answer1 \<and> root_included qm_example answer2 \<and> \<not> root_included qm_example answer3
   \<and> rootQueries qm_example [answer1, answer2, answer3] = [5, 6]"
proof -
  have "rootQueries qm_example [answer1, answer2, answer3]
          = map (\<lambda>a. the (query a)) (filter (root_included qm_example) [answer1, answer2, answer3])"
    using root_set_rule [of qm_example answer1 "[answer1, answer2, answer3]"] by blast
  then show ?thesis
    by (simp add: answer1_def answer2_def answer3_def qm_example_def q_single_def q_multi_def
          root_included_def question_not_multiple_choice_def)
qed

text \<open>
  C6. When the root set is empty the call returns, whatever the fuel, an undefined combined
  tree, empty answer-to-terms, term-to-answer, term and collected-children maps and an
  empty term list, and the repository has not been called.
\<close>

theorem empty_root_set_result:
  assumes "getSectionsQuestionsAndAnswers projectId = (sectionMap, questionMap, answerMap)"
      and "rootQueries questionMap (map snd answerMap) = []"
  shows "getDataCollectorQuery fuel getSectionsQuestionsAndAnswers h projectId queryRepository =
           Inr \<lparr>res_combinedQuery = None,
                res_answerToTermsMap = Map.empty,
                res_termToAnswerMap = Map.empty,
                res_answerMap = answerMap,
                res_terms = [],
                res_termMap = Map.empty,
                res_collectedChildrenMap = Map.empty,
                res_sectionMap = sectionMap,
                res_heap = h,
                res_repositoryCalls = []\<rparr>"
  using assms by (simp add: getDataCollectorQuery_def)

text \<open>
  C6 on a project whose only answer is hidden and belongs to a single-answer question.
\<close>

theorem empty_root_set_result_witness:
  "getDataCollectorQuery 0 load_hidden_only heap_example ''p'' repo_example =
           Inr \<lparr>res_combinedQuery = None,
                res_answerToTermsMap = Map.empty,
                res_termToAnswerMap = Map.empty,
                res_answerMap = [(''answer3'', answer3)],
                res_terms = [],
                res_termMap = Map.empty,
                res_collectedChildrenMap = Map.empty,
                res_sectionMap = Map.empty,
                res_heap = heap_example,
                res_repositoryCalls = []\<rparr>"
proof -
  have load: "load_hidden_only ''p'' = (Map.empty, qm_example, [(''answer3'', answer3)])"
    by (simp add: load_hidden_only_def)
  have empty: "rootQueries qm_example (map snd [(''answer3'', answer3)]) = []"
    by (simp add: rootQueries_def answerRootQuery_def answer3_def qm_example_def q_single_def q_multi_def)
  show ?thesis
    by (rule empty_root_set_result
          [where getSectionsQuestionsAndAnswers = load_hidden_only and projectId = "''p''",
            OF load empty])
qed

section \<open>The parent index and the lookup map\<close>

lemma buildLoop_tree:
  "fst (buildLoop h terms (tree, termMap)) k =
     (case filter (\<lambda>t. resolvable_parent h t \<and> parent_id h t = k) terms of
        [] \<Rightarrow> tree k
      | t # ts \<Rightarrow> Some (get_or_empty tree k @ t # ts))"
proof (induction terms arbitrary: tree termMap)
  case Nil
  show ?case by simp
next
  case (Cons x xs)
  show ?case
  proof (cases "resolvable_parent h x")
    case False
    then have step: "buildLoop h (x # xs) (tree, termMap) = buildLoop h xs (tree, termMap)"
      by (auto simp: resolvable_parent_def split: option.splits)
    show ?thesis
      unfolding step Cons.IH using False by simp
  next
    case True
    then obtain p where p: "parent (h x) = Some p" "query_id (h p) \<noteq> []"
      by (auto simp: resolvable_parent_def split: option.splits)
    have pid: "parent_id h x = query_id (h p)" by (simp add: parent_id_def p)
    have step: "buildLoop h (x # xs) (tree, termMap)
                  = buildLoop h xs (addOneToMultiMap tree (query_id (h p)) x,
                                    termMap(query_id (h x) \<mapsto> x))"
      by (simp add: p)
    show ?thesis
      unfolding step Cons.IH
      by (auto simp: pid True addOneToMultiMap_def get_or_empty_def split: option.splits list.splits)
  qed
qed

lemma buildLoop_termMap:
  "snd (buildLoop h terms (tree, termMap)) i =
     (case filter (\<lambda>t. resolvable_parent h t \<and> query_id (h t) = i) terms of
        [] \<Rightarrow> termMap i
      | t # ts \<Rightarrow> Some (last (t # ts)))"
proof (induction terms arbitrary: tree termMap)
  case Nil
  show ?case by simp
next
  case (Cons x xs)
  show ?case
  proof (cases "resolvable_parent h x")
    case False
    then have step: "buildLoop h (x # xs) (tree, termMap) = buildLoop h xs (tree, termMap)"
      by (auto simp: resolvable_parent_def split: option.splits)
    show ?thesis
      unfolding step Cons.IH using False by simp
  next
    case True
    then obtain p where p: "parent (h x) = Some p" "query_id (h p) \<noteq> []"
      by (auto simp: resolvable_parent_def split: option.splits)
    have step: "buildLoop h (x # xs) (tree, termMap)
                  = buildLoop h xs (addOneToMultiMap tree (query_id (h p)) x,
                                    termMap(query_id (h x) \<mapsto> x))"
      by (simp add: p)
    show ?thesis
      unfolding step Cons.IH
      by (auto simp: True split: list.splits)
  qed
qed

lemma buildLoop_skips:
  "buildLoop h terms acc = buildLoop h (filter (resolvable_parent h) terms) acc"
proof (induction terms arbitrary: acc)
  case Nil
  show ?case by simp
next
  case (Cons x xs)
  obtain tree termMap where acc: "acc = (tree, termMap)" by (cases acc)
  show ?case
    unfolding acc using Cons.IH
    by (auto simp: resolvable_parent_def split: option.splits)
qed

lemma buildQueryTree_skips:
  "buildQueryTree h (filter (resolvable_parent h) terms) = buildQueryTree h terms"
  unfolding buildQueryTree_def by (rule buildLoop_skips [symmetric])

lemma getDataCollectorQuery_without_orphans:
  "getDataCollectorQuery fuel load h projectId (without_orphans h queryRepository) =
     (case getDataCollectorQuery fuel load h projectId queryRepository of
        Inl e \<Rightarrow> Inl e
      | Inr res \<Rightarrow> Inr (res\<lparr>res_terms := filter (resolvable_parent h) (res_terms res)\<rparr>))"
  unfolding getDataCollectorQuery_def without_orphans_def
  by (auto simp: Let_def buildQueryTree_skips split: prod.splits sum.splits)

text \<open>
  C8. The multimap built from the fetched nodes holds under each key exactly the fetched
  nodes with a resolvable parent id whose parent has that id, in the order fetched; the
  lookup map has as keys exactly the ids of the fetched nodes with a resolvable parent id
  and maps each to the last fetched such node of that id; a node without a resolvable
  parent id is in neither map, and the maps are those built from the list without such
  nodes. Their presence does not change the outcome of the whole operation: the call
  fails or returns as it does on the repository without them, and returns the same result
  apart from the flat list, which names them.
\<close>

theorem buildQueryTree_contents:
  "fst (buildQueryTree h terms) k =
     (case filter (\<lambda>t. resolvable_parent h t \<and> parent_id h t = k) terms of
        [] \<Rightarrow> None
      | t # ts \<Rightarrow> Some (t # ts))
   \<and> snd (buildQueryTree h terms) i =
     (case filter (\<lambda>t. resolvable_parent h t \<and> query_id (h t) = i) terms of
        [] \<Rightarrow> None
      | t # ts \<Rightarrow> Some (last (t # ts)))
   \<and> (t \<in> set (get_or_empty (fst (buildQueryTree h terms)) k))
       = (t \<in> set terms \<and> resolvable_parent h t \<and> parent_id h t = k)
   \<and> (i \<in> dom (snd (buildQueryTree h terms)))
       = (i \<in> (\<lambda>t. query_id (h t)) ` {t \<in> set terms. resolvable_parent h t})
   \<and> buildQueryTree h terms = buildQueryTree h (filter (resolvable_parent h) terms)
   \<and> getDataCollectorQuery fuel load h projectId (without_orphans h queryRepository) =
     (case getDataCollectorQuery fuel load h projectId queryRepository of
        Inl e \<Rightarrow> Inl e
      | Inr res \<Rightarrow> Inr (res\<lparr>res_terms := filter (resolvable_parent h) (res_terms res)\<rparr>))"
proof -
  have "fst (buildQueryTree h terms) k =
     (case filter (\<lambda>t. resolvable_parent h t \<and> parent_id h t = k) terms of
        [] \<Rightarrow> None
      | t # ts \<Rightarrow> Some (t # ts))"
    unfolding buildQueryTree_def buildLoop_tree
    by (simp add: get_or_empty_def split: list.splits)
  moreover have "snd (buildQueryTree h terms) i =
     (case filter (\<lambda>t. resolvable_parent h t \<and> query_id (h t) = i) terms of
        [] \<Rightarrow> None
      | t # ts \<Rightarrow> Some (last (t # ts)))"
    unfolding buildQueryTree_def buildLoop_termMap
    by (simp split: list.splits)
  moreover have "(t \<in> set (get_or_empty (fst (buildQueryTree h terms)) k))
       = (t \<in> set terms \<and> resolvable_parent h t \<and> parent_id h t = k)"
  proof -
    have "get_or_empty (fst (buildQueryTree h terms)) k
            = filter (\<lambda>t. resolvable_parent h t \<and> parent_id h t = k) terms"
      unfolding buildQueryTree_def get_or_empty_def buildLoop_tree
      by (simp add: get_or_empty_def split: list.splits)
    then show ?thesis by auto
  qed
  moreover have "(i \<in> dom (snd (buildQueryTree h terms)))
       = (i \<in> (\<lambda>t. query_id (h t)) ` {t \<in> set terms. resolvable_parent h t})"
  proof -
    have "(snd (buildQueryTree h terms) i \<noteq> None)
            = (filter (\<lambda>t. resolvable_parent h t \<and> query_id (h t) = i) terms \<noteq> [])"
      unfolding buildQueryTree_def buildLoop_termMap
      by (simp split: list.splits)
    then show ?thesis
      by (auto simp: dom_def filter_empty_conv)
  qed
  moreover note buildQueryTree_skips [of h terms, symmetric]
    getDataCollectorQuery_without_orphans [of fuel load h projectId queryRepository]
  ultimately show ?thesis by blast
qed

lemmas example_defs =
  q_single_def q_multi_def qm_example_def answer1_def answer2_def answer3_def am_example_def query_node_def
  heap_example_def repo_example_def load_example_def

lemma example_roots: "rootQueries qm_example (map snd am_example) = [5, 6]"
  by (simp add: rootQueries_def answerRootQuery_def example_defs)

lemma example_tree:
  "fst (buildQueryTree heap_example [10, 11, 12, 13, 14, 15, 16, 20]) =
     [''r1'' \<mapsto> [10, 14], ''t'' \<mapsto> [11, 12], ''d'' \<mapsto> [13], ''x'' \<mapsto> [15], ''r2'' \<mapsto> [20]]"
  by (rule ext) (simp add: buildQueryTree_def addOneToMultiMap_def example_defs)

text \<open>
  C8 on the example: node 16 has no parent and is skipped.
\<close>

theorem buildQueryTree_contents_witness:
  "\<not> resolvable_parent heap_example 16
   \<and> fst (buildQueryTree heap_example [10, 11, 12, 13, 14, 15, 16, 20]) ''t'' = Some [11, 12]
   \<and> snd (buildQueryTree heap_example [10, 11, 12, 13, 14, 15, 16, 20]) ''t'' = Some 10
   \<and> snd (buildQueryTree heap_example [10, 11, 12, 13, 14, 15, 16, 20]) ''o'' = None
   \<and> buildQueryTree heap_example [10, 11, 12, 13, 14, 15, 16, 20]
       = buildQueryTree heap_example [10, 11, 12, 13, 14, 15, 20]"
proof -
  let ?terms = "[10, 11, 12, 13, 14, 15, 16, 20] :: addr list"
  have f1: "filter (\<lambda>t. resolvable_parent heap_example t \<and> parent_id heap_example t = ''t'') ?terms
              = [11, 12]"
    and f2: "filter (\<lambda>t. resolvable_parent heap_example t \<and> query_id (heap_example t) = ''t'') ?terms
              = [10]"
    and f3: "filter (\<lambda>t. resolvable_parent heap_example t \<and> query_id (heap_example t) = ''o'') ?terms
              = []"
    and f4: "filter (resolvable_parent heap_example) ?terms = [10, 11, 12, 13, 14, 15, 20]"
    and f5: "\<not> resolvable_parent heap_example 16"
    by (simp_all add: resolvable_parent_def parent_id_def heap_example_def query_node_def)
  note t = buildQueryTree_contents
             [where h = heap_example and terms = "?terms" and k = "''t''" and i = "''t''" and t = 11
                and fuel = 0 and load = load_example and projectId = "''p''"
                and queryRepository = repo_example]
  note o = buildQueryTree_contents
             [where h = heap_example and terms = "?terms" and k = "''t''" and i = "''o''" and t = 16
                and fuel = 0 and load = load_example and projectId = "''p''"
                and queryRepository = repo_example]
  have 1: "fst (buildQueryTree heap_example ?terms) ''t'' = Some [11, 12]"
    using t [THEN conjunct1] unfolding f1 by simp
  have 2: "snd (buildQueryTree heap_example ?terms) ''t'' = Some 10"
    using t [THEN conjunct2, THEN conjunct1] unfolding f2 by simp
  have 3: "snd (buildQueryTree heap_example ?terms) ''o'' = None"
    using o [THEN conjunct2, THEN conjunct1] unfolding f3 by simp
  have 4: "buildQueryTree heap_example ?terms
                    = buildQueryTree heap_example [10, 11, 12, 13, 14, 15, 20]"
    using t [THEN conjunct2, THEN conjunct2, THEN conjunct2, THEN conjunct2, THEN conjunct1]
    unfolding f4 .
  from f5 1 2 3 4 show ?thesis by blast
qed

section \<open>The tree walk\<close>

subsection \<open>What one walk does\<close>

lemma visited_fields [simp]:
  "query_id (visited q tree x) = query_id x"
  "disabled (visited q tree x) = disabled x"
  "collect (visited q tree x) = collect x"
  "category (visited q tree x) = category x"
  "parent (visited q tree x) = parent x"
  "answer (visited q tree x) = answer x"
  "sortDirection (visited q tree x) = question_sortDirection q"
  "groups (visited q tree x) = Some (get_or_empty tree (query_id x))"
  by (simp_all add: visited_def)

lemma visited_idem [simp]: "visited q tree (visited q tree x) = visited q tree x"
  by (simp add: visited_def)

lemma effect_refl: "effect {} {} a q tree s s"
  by (simp add: effect_def)

lemma effect_heapD:
  "effect W C a q tree s s' \<Longrightarrow> heap s' n = (if n \<in> W then visited q tree (heap s n) else heap s n)"
  by (simp add: effect_def)

lemma effect_fixed:
  assumes "effect W C a q tree s s'"
  shows "query_id (heap s' n) = query_id (heap s n)"
    and "disabled (heap s' n) = disabled (heap s n)"
    and "collect (heap s' n) = collect (heap s n)"
    and "category (heap s' n) = category (heap s n)"
  using effect_heapD [OF assms, of n] by (simp_all split: if_splits)

lemma effect_trans:
  assumes 1: "effect W1 C1 a q tree s s1" and 2: "effect W2 C2 a q tree s1 s2"
  shows "effect (W1 \<union> W2) (C1 \<union> C2) a q tree s s2"
proof -
  note fx = effect_fixed [OF 1]
  have heap: "\<forall>n. heap s2 n = (if n \<in> W1 \<union> W2 then visited q tree (heap s n) else heap s n)"
    using effect_heapD [OF 1] effect_heapD [OF 2] by simp
  have tta: "\<forall>k. termToAnswerMap s2 k =
            (if k \<in> (\<lambda>n. query_id (heap s n)) ` (W1 \<union> W2) then Some a else termToAnswerMap s k)"
    using 1 2 unfolding effect_def by (auto simp: fx image_Un)
  have cc: "\<forall>k. collectedChildrenMap s2 k =
            (if k \<in> (\<lambda>n. query_id (heap s n)) ` (C1 \<union> C2)
             then Some (\<exists>c \<in> set (get_or_empty tree k). collect (heap s c))
             else collectedChildrenMap s k)"
    using 1 2 unfolding effect_def by (auto simp: fx image_Un)
  obtain vs1 where vs1: "set vs1 = W1"
     "answerToTermsMap s1 =
          (if vs1 = [] then answerToTermsMap s
           else (answerToTermsMap s)
                  (answer_id a \<mapsto> get_or_empty (answerToTermsMap s) (answer_id a) @ vs1))"
    using 1 unfolding effect_def by blast
  obtain vs2 where vs2: "set vs2 = W2"
     "answerToTermsMap s2 =
          (if vs2 = [] then answerToTermsMap s1
           else (answerToTermsMap s1)
                  (answer_id a \<mapsto> get_or_empty (answerToTermsMap s1) (answer_id a) @ vs2))"
    using 2 unfolding effect_def by blast
  have att: "set (vs1 @ vs2) = W1 \<union> W2 \<and>
        answerToTermsMap s2 =
          (if vs1 @ vs2 = [] then answerToTermsMap s
           else (answerToTermsMap s)
                  (answer_id a \<mapsto> get_or_empty (answerToTermsMap s) (answer_id a) @ (vs1 @ vs2)))"
    using vs1 vs2 by (auto simp: get_or_empty_def)
  show ?thesis
    unfolding effect_def using heap tta cc att by blast
qed

lemma walked_iff:
  "walked tree h t n \<longleftrightarrow>
     n = t \<or> (\<not> disabled (h t) \<and>
       (\<exists>c \<in> set (get_or_empty tree (query_id (h t))). \<not> disabled (h c) \<and> walked tree h c n))"
  by (subst walked.simps) auto

lemma walked_fixed_imp:
  assumes "\<And>m. query_id (h' m) = query_id (h m)" "\<And>m. disabled (h' m) = disabled (h m)"
  shows "walked tree h t n \<Longrightarrow> walked tree h' t n"
proof (induction rule: walked.induct)
  case (walked_self t)
  show ?case by (rule walked.walked_self)
next
  case (walked_child t c n)
  then show ?case using assms by (auto intro: walked.walked_child)
qed

lemma walked_cong:
  assumes "\<And>m. query_id (h' m) = query_id (h m)" "\<And>m. disabled (h' m) = disabled (h m)"
  shows "walked tree h' t n = walked tree h t n"
  using walked_fixed_imp [of h' h tree t n] walked_fixed_imp [of h h' tree t n] assms
  by auto

lemma effect_walked:
  "effect W C a q tree s s' \<Longrightarrow> walked tree (heap s') t n = walked tree (heap s) t n"
  by (rule walked_cong) (simp_all add: effect_fixed)

lemma effect_active:
  "effect W C a q tree s s' \<Longrightarrow> active tree (heap s' n) = active tree (heap s n)"
  by (simp add: active_def effect_fixed)

lemma walkTree_Suc:
  "walkTree (Suc fuel) t a q tree s =
     (let s4 = enter t a q tree s; gs = get_or_empty tree (query_id (heap s t))
      in if disabled (heap s t) \<or> gs = [] then Inr s4
         else (case walkChildren fuel gs a q tree s4 of
                 Inl e \<Rightarrow> Inl e
               | Inr s5 \<Rightarrow>
                   if truthy_category (category (heap s5 t)) then
                     (case groups (heap s5 t) of
                        None \<Rightarrow> Inl TypeError
                      | Some gs' \<Rightarrow>
                          Inr (s5\<lparr>collectedChildrenMap :=
                                 (collectedChildrenMap s5)
                                   (query_id (heap s5 t) \<mapsto> filter (\<lambda>v. collect (heap s5 v)) gs' \<noteq> [])\<rparr>))
                   else Inr s5))"
  by (auto simp: enter_def visited_def Let_def split: sum.splits option.splits)

lemma effect_enter: "effect {t} {} a q tree s (enter t a q tree s)"
  unfolding effect_def enter_def
  apply (intro conjI)
     apply simp
    apply simp
   apply (rule exI [of _ "[t]"])
   apply (simp add: addOneToMultiMap_def get_or_empty_def split: option.splits)
  apply simp
  done

lemma effect_collect:
  "effect {} {t} a q tree s
           (s\<lparr>collectedChildrenMap :=
                (collectedChildrenMap s)
                  (query_id (heap s t) \<mapsto>
                     filter (\<lambda>v. collect (heap s v)) (get_or_empty tree (query_id (heap s t))) \<noteq> [])\<rparr>)"
  unfolding effect_def
  by (auto simp: filter_empty_conv)

lemma effect_sets:
  assumes "effect W C a q tree s s'"
  shows "walkedSet tree (heap s') t = walkedSet tree (heap s) t"
    and "enabledWalked tree (heap s') cs = enabledWalked tree (heap s) cs"
    and "activeIn tree (heap s') X = activeIn tree (heap s) X"
  by (simp_all add: walkedSet_def enabledWalked_def activeIn_def
        effect_walked [OF assms] effect_active [OF assms] effect_fixed [OF assms])

lemma activeIn_Un: "activeIn tree h (A \<union> B) = activeIn tree h A \<union> activeIn tree h B"
  by (auto simp: activeIn_def)

lemma activeIn_insert:
  "activeIn tree h (insert t X) = (if active tree (h t) then {t} else {}) \<union> activeIn tree h X"
  by (auto simp: activeIn_def)

lemma walkedSet_unfold:
  "walkedSet tree h t =
     {t} \<union> (if disabled (h t) then {} else enabledWalked tree h (get_or_empty tree (query_id (h t))))"
  unfolding walkedSet_def enabledWalked_def
  by (auto simp: walked_iff [of tree h t])

lemma enabledWalked_Nil: "enabledWalked tree h [] = {}"
  by (simp add: enabledWalked_def)

lemma enabledWalked_Cons:
  "enabledWalked tree h (c # cs) =
     (if disabled (h c) then {} else walkedSet tree h c) \<union> enabledWalked tree h cs"
  by (auto simp: enabledWalked_def walkedSet_def)

lemma walkChildren_effect_aux:
  assumes IH: "\<And>t s s'. walkTree fuel t a q tree s = Inr s' \<Longrightarrow>
                 effect (walkedSet tree (heap s) t)
                        (activeIn tree (heap s) (walkedSet tree (heap s) t)) a q tree s s'"
  shows "walkChildren fuel cs a q tree s = Inr s' \<Longrightarrow>
           effect (enabledWalked tree (heap s) cs)
                  (activeIn tree (heap s) (enabledWalked tree (heap s) cs)) a q tree s s'"
proof (induction cs arbitrary: s)
  case Nil
  then show ?case
    by (simp add: enabledWalked_Nil activeIn_def effect_refl)
next
  case (Cons c cs)
  show ?case
  proof (cases "disabled (heap s c)")
    case True
    with Cons show ?thesis
      by (simp add: enabledWalked_Cons)
  next
    case False
    with Cons.prems obtain s1 where
      s1: "walkTree fuel c a q tree s = Inr s1" and
      rest: "walkChildren fuel cs a q tree s1 = Inr s'"
      by (auto split: sum.splits)
    note e1 = IH [OF s1]
    note e2 = Cons.IH [OF rest]
    have "effect (walkedSet tree (heap s) c \<union> enabledWalked tree (heap s) cs)
            (activeIn tree (heap s) (walkedSet tree (heap s) c)
               \<union> activeIn tree (heap s) (enabledWalked tree (heap s) cs)) a q tree s s'"
      using effect_trans [OF e1 e2] by (simp add: effect_sets [OF e1])
    with False show ?thesis
      by (simp add: enabledWalked_Cons activeIn_Un)
  qed
qed

lemma walkTree_effect:
  "walkTree fuel t a q tree s = Inr s' \<Longrightarrow>
     effect (walkedSet tree (heap s) t)
            (activeIn tree (heap s) (walkedSet tree (heap s) t)) a q tree s s'"
proof (induction fuel arbitrary: t s s')
  case 0
  then show ?case by simp
next
  case (Suc fuel)
  let ?s4 = "enter t a q tree s"
  let ?gs = "get_or_empty tree (query_id (heap s t))"
  note e0 = effect_enter [of t a q tree s]
  show ?case
  proof (cases "disabled (heap s t) \<or> ?gs = []")
    case True
    then have W: "walkedSet tree (heap s) t = {t}"
      by (auto simp: walkedSet_unfold [of tree "heap s" t] enabledWalked_Nil)
    have C: "activeIn tree (heap s) {t} = {}"
      using True by (auto simp: activeIn_def active_def)
    from Suc.prems True have "s' = ?s4"
      by (auto simp: walkTree_Suc Let_def simp del: walkTree.simps)
    with e0 show ?thesis by (simp add: W C)
  next
    case False
    then have W: "walkedSet tree (heap s) t = {t} \<union> enabledWalked tree (heap s) ?gs"
      by (simp add: walkedSet_unfold [of tree "heap s" t])
    from Suc.prems False obtain s5 where
      s5: "walkChildren fuel ?gs a q tree ?s4 = Inr s5" and
      fin: "(if truthy_category (category (heap s5 t)) then
                     (case groups (heap s5 t) of
                        None \<Rightarrow> Inl TypeError
                      | Some gs' \<Rightarrow>
                          Inr (s5\<lparr>collectedChildrenMap :=
                                 (collectedChildrenMap s5)
                                   (query_id (heap s5 t) \<mapsto> filter (\<lambda>v. collect (heap s5 v)) gs' \<noteq> [])\<rparr>))
                   else Inr s5) = Inr s'"
      by (auto simp: walkTree_Suc Let_def simp del: walkTree.simps split: sum.splits)
    have e1: "effect (enabledWalked tree (heap ?s4) ?gs)
                  (activeIn tree (heap ?s4) (enabledWalked tree (heap ?s4) ?gs)) a q tree ?s4 s5"
      by (rule walkChildren_effect_aux [OF Suc.IH s5])
    have e05: "effect ({t} \<union> enabledWalked tree (heap s) ?gs)
                  ({} \<union> activeIn tree (heap s) (enabledWalked tree (heap s) ?gs)) a q tree s s5"
      using effect_trans [OF e0 e1] by (simp add: effect_sets [OF e0])
    have g5: "groups (heap s5 t) = Some ?gs" and c5: "category (heap s5 t) = category (heap s t)"
      and i5: "query_id (heap s5 t) = query_id (heap s t)"
      using effect_heapD [OF e05, of t] by simp_all
    show ?thesis
    proof (cases "truthy_category (category (heap s t))")
      case True
      with fin g5 c5 i5 have s': "s' = s5\<lparr>collectedChildrenMap :=
                (collectedChildrenMap s5)
                  (query_id (heap s5 t) \<mapsto>
                     filter (\<lambda>v. collect (heap s5 v)) (get_or_empty tree (query_id (heap s5 t))) \<noteq> [])\<rparr>"
        by simp
      have e2: "effect {} {t} a q tree s5 s'"
        unfolding s' by (rule effect_collect)
      have C: "active tree (heap s t)"
        using True False by (auto simp: active_def)
      have "effect (({t} \<union> enabledWalked tree (heap s) ?gs) \<union> {})
                  (({} \<union> activeIn tree (heap s) (enabledWalked tree (heap s) ?gs)) \<union> {t}) a q tree s s'"
        by (rule effect_trans [OF e05 e2])
      then show ?thesis
        by (simp add: W activeIn_insert C)
    next
      case False
      with fin c5 have s': "s' = s5" by simp
      have C: "\<not> active tree (heap s t)"
        using False by (auto simp: active_def)
      from e05 show ?thesis
        by (simp add: W activeIn_insert C s')
    qed
  qed
qed

lemma walkChildren_effect:
  "walkChildren fuel cs a q tree s = Inr s' \<Longrightarrow>
     effect (enabledWalked tree (heap s) cs)
            (activeIn tree (heap s) (enabledWalked tree (heap s) cs)) a q tree s s'"
  by (rule walkChildren_effect_aux) (rule walkTree_effect)

text \<open>
  The walk never reads \<^verbatim>\<open>groups\<close> of \<^verbatim>\<open>undefined\<close>: its only failure is the exhausted
  stack. A walk that returns with some fuel returns the same store with more.
\<close>

lemma walkChildren_no_TypeError_aux:
  assumes "\<And>t s. walkTree fuel t a q tree s \<noteq> Inl TypeError"
  shows "walkChildren fuel cs a q tree s \<noteq> Inl TypeError"
  using assms by (induction cs arbitrary: s) (auto split: sum.splits simp del: walkTree.simps)

lemma walkTree_no_TypeError:
  "walkTree fuel t a q tree s \<noteq> Inl TypeError"
proof (induction fuel arbitrary: t s)
  case 0
  show ?case by simp
next
  case (Suc fuel)
  let ?s4 = "enter t a q tree s"
  let ?gs = "get_or_empty tree (query_id (heap s t))"
  show ?case
  proof (cases "walkChildren fuel ?gs a q tree ?s4")
    case (Inl e)
    moreover have "e \<noteq> TypeError"
      using walkChildren_no_TypeError_aux [of fuel a q tree ?gs ?s4, OF Suc.IH] Inl by auto
    ultimately show ?thesis
      by (auto simp: walkTree_Suc Let_def simp del: walkTree.simps)
  next
    case (Inr s5)
    note e1 = walkChildren_effect [OF Inr]
    note e0 = effect_enter [of t a q tree s]
    have "groups (heap s5 t) = Some ?gs"
      using effect_heapD [OF e1, of t] effect_heapD [OF e0, of t]
      by (simp split: if_splits)
    with Inr show ?thesis
      by (auto simp: walkTree_Suc Let_def simp del: walkTree.simps)
  qed
qed

lemma walkChildren_fuel_aux:
  assumes "\<And>t s s'. walkTree fuel t a q tree s = Inr s' \<Longrightarrow> walkTree (Suc fuel) t a q tree s = Inr s'"
  shows "walkChildren fuel cs a q tree s = Inr s' \<Longrightarrow> walkChildren (Suc fuel) cs a q tree s = Inr s'"
proof (induction cs arbitrary: s)
  case Nil
  then show ?case by simp
next
  case (Cons c cs)
  show ?case
  proof (cases "disabled (heap s c)")
    case True
    with Cons show ?thesis by (simp del: walkTree.simps)
  next
    case False
    with Cons.prems obtain s1 where
      s1: "walkTree fuel c a q tree s = Inr s1" and
      rest: "walkChildren fuel cs a q tree s1 = Inr s'"
      by (auto split: sum.splits simp del: walkTree.simps)
    from assms [OF s1] Cons.IH [OF rest] False show ?thesis
      by (simp del: walkTree.simps)
  qed
qed

lemma walkTree_fuel_Suc:
  "walkTree fuel t a q tree s = Inr s' \<Longrightarrow> walkTree (Suc fuel) t a q tree s = Inr s'"
proof (induction fuel arbitrary: t s s')
  case 0
  then show ?case by simp
next
  case (Suc fuel)
  let ?s4 = "enter t a q tree s"
  let ?gs = "get_or_empty tree (query_id (heap s t))"
  show ?case
  proof (cases "disabled (heap s t) \<or> ?gs = []")
    case True
    with Suc.prems show ?thesis
      by (simp add: walkTree_Suc Let_def del: walkTree.simps)
  next
    case False
    with Suc.prems obtain s5 where
      s5: "walkChildren fuel ?gs a q tree ?s4 = Inr s5"
      by (auto simp: walkTree_Suc Let_def simp del: walkTree.simps split: sum.splits)
    have "walkChildren (Suc fuel) ?gs a q tree ?s4 = Inr s5"
      by (rule walkChildren_fuel_aux [OF Suc.IH s5])
    with Suc.prems s5 False show ?thesis
      by (simp add: walkTree_Suc [of "Suc fuel"] walkTree_Suc [of fuel] Let_def del: walkTree.simps)
  qed
qed

subsection \<open>The root loop\<close>

lemma fixed_same_refl [simp]: "fixed_same h h"
  by (simp add: fixed_same_def)

lemma fixed_same_trans: "fixed_same h h1 \<Longrightarrow> fixed_same h1 h2 \<Longrightarrow> fixed_same h h2"
  unfolding fixed_same_def
proof
  fix n
  assume 1: "\<forall>n. h1 n = (h n)\<lparr>groups := groups (h1 n), sortDirection := sortDirection (h1 n)\<rparr>"
     and 2: "\<forall>n. h2 n = (h1 n)\<lparr>groups := groups (h2 n), sortDirection := sortDirection (h2 n)\<rparr>"
  have "h2 n = (h1 n)\<lparr>groups := groups (h2 n), sortDirection := sortDirection (h2 n)\<rparr>"
    using 2 by blast
  also have "h1 n = (h n)\<lparr>groups := groups (h1 n), sortDirection := sortDirection (h1 n)\<rparr>"
    using 1 by blast
  finally show "h2 n = (h n)\<lparr>groups := groups (h2 n), sortDirection := sortDirection (h2 n)\<rparr>"
    by simp
qed

lemma fixed_sameD:
  assumes "fixed_same h h'"
  shows "query_id (h' n) = query_id (h n)"
    and "disabled (h' n) = disabled (h n)"
    and "collect (h' n) = collect (h n)"
    and "category (h' n) = category (h n)"
    and "answer (h' n) = answer (h n)"
    and "parent (h' n) = parent (h n)"
proof -
  have "h' n = (h n)\<lparr>groups := groups (h' n), sortDirection := sortDirection (h' n)\<rparr>"
    using assms unfolding fixed_same_def by blast
  then have e: "\<exists>g d. h' n = (h n)\<lparr>groups := g, sortDirection := d\<rparr>" by blast
  from e show "query_id (h' n) = query_id (h n)" by auto
  from e show "disabled (h' n) = disabled (h n)" by auto
  from e show "collect (h' n) = collect (h n)" by auto
  from e show "category (h' n) = category (h n)" by auto
  from e show "answer (h' n) = answer (h n)" by auto
  from e show "parent (h' n) = parent (h n)" by auto
qed

lemma effect_fixed_same: "effect W C a q tree s s' \<Longrightarrow> fixed_same (heap s) (heap s')"
  unfolding fixed_same_def
  by (auto simp: effect_heapD visited_def)

lemma fixed_same_upd_groups: "fixed_same h (h(r := (h r)\<lparr>groups := g\<rparr>))"
  by (simp add: fixed_same_def)

lemma fixed_same_sets:
  assumes "fixed_same h h'"
  shows "walked tree h' t n = walked tree h t n"
    and "walkedSet tree h' t = walkedSet tree h t"
    and "rootWalked tree h' r = rootWalked tree h r"
    and "resolved am qm h' r = resolved am qm h r"
    and "active tree (h' n) = active tree (h n)"
    and "activeIn tree h' X = activeIn tree h X"
proof -
  show w: "\<And>t n. walked tree h' t n = walked tree h t n"
    by (rule walked_cong) (simp_all add: fixed_sameD [OF assms])
  show "walkedSet tree h' t = walkedSet tree h t"
    by (simp add: walkedSet_def w)
  show "rootWalked tree h' r = rootWalked tree h r"
    by (simp add: rootWalked_def w fixed_sameD [OF assms])
  show "resolved am qm h' r = resolved am qm h r"
    by (simp add: resolved_def resolveAnswer_def fixed_sameD [OF assms])
  show a: "\<And>n. active tree (h' n) = active tree (h n)"
    by (simp add: active_def fixed_sameD [OF assms])
  show "activeIn tree h' X = activeIn tree h X"
    by (simp add: activeIn_def a)
qed

lemma walkRootGroups_effect:
  "walkRootGroups fuel cs a q tree s = Inr s' \<Longrightarrow>
     effect {n. \<exists>c \<in> set cs. walked tree (heap s) c n}
            (activeIn tree (heap s) {n. \<exists>c \<in> set cs. walked tree (heap s) c n}) a q tree s s'"
proof (induction cs arbitrary: s)
  case Nil
  then show ?case by (simp add: activeIn_def effect_refl)
next
  case (Cons c cs)
  from Cons.prems obtain s1 where
    s1: "walkTree fuel c a q tree s = Inr s1" and
    rest: "walkRootGroups fuel cs a q tree s1 = Inr s'"
    by (auto split: sum.splits)
  note e1 = walkTree_effect [OF s1]
  note e2 = Cons.IH [OF rest]
  have eq: "{n. \<exists>c' \<in> set (c # cs). walked tree (heap s) c' n}
          = walkedSet tree (heap s) c \<union> {n. \<exists>c \<in> set cs. walked tree (heap s) c n}"
    by (auto simp: walkedSet_def)
  have "effect (walkedSet tree (heap s) c \<union> {n. \<exists>c \<in> set cs. walked tree (heap s) c n})
          (activeIn tree (heap s) (walkedSet tree (heap s) c)
             \<union> activeIn tree (heap s) {n. \<exists>c \<in> set cs. walked tree (heap s) c n}) a q tree s s'"
    using effect_trans [OF e1 e2] by (simp add: effect_sets [OF e1] effect_walked [OF e1])
  then show ?case
    unfolding eq activeIn_Un .
qed

lemma rootLoop_skip:
  "resolved am qm (heap s) r = None \<Longrightarrow>
     rootLoop fuel (r # rs) am qm tree (s, cg, qcq) = rootLoop fuel rs am qm tree (s, cg, qcq)"
  by (auto simp: resolved_def Let_def split: option.splits)

lemma rootLoop_step:
  assumes "resolved am qm (heap s) r = Some (a, q)"
      and "rootLoop fuel (r # rs) am qm tree (s, cg, qcq) = Inr res"
  shows "\<exists>s2. effect (rootWalked tree (heap s) r)
                  (activeIn tree (heap s) (rootWalked tree (heap s) r)) a q tree
                  (s\<lparr>heap := (heap s)(r := (heap s r)
                      \<lparr>groups := Some (get_or_empty tree (query_id (heap s r)))\<rparr>)\<rparr>) s2
            \<and> rootLoop fuel rs am qm tree
                 (s2, cg @ [r], addOneToMultiMap qcq (question_id q) r) = Inr res"
proof -
  let ?gs = "get_or_empty tree (query_id (heap s r))"
  let ?s1 = "s\<lparr>heap := (heap s)(r := (heap s r)\<lparr>groups := Some ?gs\<rparr>)\<rparr>"
  from assms obtain s2 where
    w: "walkRootGroups fuel ?gs a q tree ?s1 = Inr s2" and
    rest: "rootLoop fuel rs am qm tree (s2, cg @ [r], addOneToMultiMap qcq (question_id q) r) = Inr res"
    by (auto simp: resolved_def Let_def split: option.splits sum.splits)
  have fs: "fixed_same (heap s) (heap ?s1)"
    by (simp add: fixed_same_upd_groups)
  have "{n. \<exists>c \<in> set ?gs. walked tree (heap ?s1) c n} = rootWalked tree (heap s) r"
    unfolding rootWalked_def fixed_same_sets(1) [OF fs] ..
  with walkRootGroups_effect [OF w] fixed_same_sets(6) [OF fs] rest
  show ?thesis by auto
qed

lemma indexed_refl: "indexed {} tree s s"
  by (simp add: indexed_def)

lemma indexed_heap_only:
  "fixed_same (heap s) h' \<Longrightarrow> indexed {} tree s (s\<lparr>heap := h'\<rparr>)"
  by (simp add: indexed_def)

lemma indexed_effect:
  assumes e: "effect W (activeIn tree (heap s) W) a q tree s s'"
  shows "indexed ({(a, q)} \<times> W) tree s s'"
proof -
  have fs: "fixed_same (heap s) (heap s')" by (rule effect_fixed_same [OF e])
  have cc: "\<forall>k. collectedChildrenMap s' k =
            (if \<exists>a' q' n. ((a', q'), n) \<in> {(a, q)} \<times> W \<and> query_id (heap s n) = k \<and> active tree (heap s n)
             then Some (\<exists>c \<in> set (get_or_empty tree k). collect (heap s c))
             else collectedChildrenMap s k)"
    using e unfolding effect_def activeIn_def by auto
  obtain vs where vs: "set vs = W"
     "answerToTermsMap s' =
          (if vs = [] then answerToTermsMap s
           else (answerToTermsMap s)
                  (answer_id a \<mapsto> get_or_empty (answerToTermsMap s) (answer_id a) @ vs))"
    using e unfolding effect_def by blast
  have att: "\<forall>k. set (get_or_empty (answerToTermsMap s') k) =
            set (get_or_empty (answerToTermsMap s) k)
              \<union> {n. \<exists>a' q'. ((a', q'), n) \<in> {(a, q)} \<times> W \<and> answer_id a' = k}"
    using vs by (auto simp: get_or_empty_def)
  have tta: "\<forall>k. termToAnswerMap s' k =
            (if k \<in> (\<lambda>n. query_id (heap s n)) ` W then Some a else termToAnswerMap s k)"
    using e unfolding effect_def by blast
  have tta1: "\<forall>k. (termToAnswerMap s' k = None) =
            (termToAnswerMap s k = None
              \<and> \<not> (\<exists>a' q' n. ((a', q'), n) \<in> {(a, q)} \<times> W \<and> query_id (heap s n) = k))"
    using tta by auto
  have tta2: "\<forall>k a'. termToAnswerMap s' k = Some a' \<longrightarrow>
            termToAnswerMap s k = Some a'
              \<or> (\<exists>q' n. ((a', q'), n) \<in> {(a, q)} \<times> W \<and> query_id (heap s n) = k)"
    using tta by auto
  show ?thesis
    unfolding indexed_def using fs cc att tta1 tta2 by blast
qed

lemma indexed_trans:
  assumes 1: "indexed T1 tree s s1" and 2: "indexed T2 tree s1 s2"
  shows "indexed (T1 \<union> T2) tree s s2"
proof -
  have f1: "fixed_same (heap s) (heap s1)" and f2: "fixed_same (heap s1) (heap s2)"
    using 1 2 by (simp_all add: indexed_def)
  note fx = fixed_sameD [OF f1] fixed_same_sets(5) [OF f1]
  have fs: "fixed_same (heap s) (heap s2)" by (rule fixed_same_trans [OF f1 f2])
  have cc: "\<forall>k. collectedChildrenMap s2 k =
            (if \<exists>a q n. ((a, q), n) \<in> T1 \<union> T2 \<and> query_id (heap s n) = k \<and> active tree (heap s n)
             then Some (\<exists>c \<in> set (get_or_empty tree k). collect (heap s c))
             else collectedChildrenMap s k)"
  proof
    fix k
    let ?F = "Some (\<exists>c \<in> set (get_or_empty tree k). collect (heap s c))"
    let ?P = "\<lambda>T. \<exists>a q n. ((a, q), n) \<in> T \<and> query_id (heap s n) = k \<and> active tree (heap s n)"
    define p1 where "p1 = ?P T1"
    define p2 where "p2 = ?P T2"
    define p12 where "p12 = ?P (T1 \<union> T2)"
    have c1: "collectedChildrenMap s1 k = (if p1 then ?F else collectedChildrenMap s k)"
      unfolding p1_def using 1 unfolding indexed_def by blast
    have "collectedChildrenMap s2 k =
            (if \<exists>a q n. ((a, q), n) \<in> T2 \<and> query_id (heap s1 n) = k \<and> active tree (heap s1 n)
             then Some (\<exists>c \<in> set (get_or_empty tree k). collect (heap s1 c))
             else collectedChildrenMap s1 k)"
      using 2 unfolding indexed_def by blast
    then have c2: "collectedChildrenMap s2 k = (if p2 then ?F else collectedChildrenMap s1 k)"
      unfolding fx p2_def .
    have u: "p12 = (p1 \<or> p2)" unfolding p1_def p2_def p12_def by blast
    have "collectedChildrenMap s2 k = (if p12 then ?F else collectedChildrenMap s k)"
      unfolding u using c1 c2 by (cases p1; cases p2) simp_all
    then show "collectedChildrenMap s2 k =
            (if ?P (T1 \<union> T2) then ?F else collectedChildrenMap s k)"
      unfolding p12_def .
  qed
  have att: "\<forall>k. set (get_or_empty (answerToTermsMap s2) k) =
            set (get_or_empty (answerToTermsMap s) k)
              \<union> {n. \<exists>a q. ((a, q), n) \<in> T1 \<union> T2 \<and> answer_id a = k}"
    using 1 2 unfolding indexed_def by auto
  have tta1: "\<forall>k. (termToAnswerMap s2 k = None) =
            (termToAnswerMap s k = None
              \<and> \<not> (\<exists>a q n. ((a, q), n) \<in> T1 \<union> T2 \<and> query_id (heap s n) = k))"
  proof
    fix k
    have a: "(termToAnswerMap s1 k = None) =
            (termToAnswerMap s k = None
              \<and> \<not> (\<exists>a q n. ((a, q), n) \<in> T1 \<and> query_id (heap s n) = k))"
      using 1 unfolding indexed_def by blast
    have "(termToAnswerMap s2 k = None) =
            (termToAnswerMap s1 k = None
              \<and> \<not> (\<exists>a q n. ((a, q), n) \<in> T2 \<and> query_id (heap s1 n) = k))"
      using 2 unfolding indexed_def by blast
    then have b: "(termToAnswerMap s2 k = None) =
            (termToAnswerMap s1 k = None
              \<and> \<not> (\<exists>a q n. ((a, q), n) \<in> T2 \<and> query_id (heap s n) = k))"
      unfolding fx .
    show "(termToAnswerMap s2 k = None) =
            (termToAnswerMap s k = None
              \<and> \<not> (\<exists>a q n. ((a, q), n) \<in> T1 \<union> T2 \<and> query_id (heap s n) = k))"
      unfolding b a by blast
  qed
  have tta2: "\<forall>k a. termToAnswerMap s2 k = Some a \<longrightarrow>
            termToAnswerMap s k = Some a
              \<or> (\<exists>q n. ((a, q), n) \<in> T1 \<union> T2 \<and> query_id (heap s n) = k)"
  proof (intro allI impI)
    fix k a assume "termToAnswerMap s2 k = Some a"
    then have "termToAnswerMap s1 k = Some a \<or> (\<exists>q n. ((a, q), n) \<in> T2 \<and> query_id (heap s1 n) = k)"
      using 2 unfolding indexed_def by blast
    moreover have "termToAnswerMap s1 k = Some a \<Longrightarrow>
        termToAnswerMap s k = Some a \<or> (\<exists>q n. ((a, q), n) \<in> T1 \<and> query_id (heap s n) = k)"
      using 1 unfolding indexed_def by blast
    ultimately show "termToAnswerMap s k = Some a
              \<or> (\<exists>q n. ((a, q), n) \<in> T1 \<union> T2 \<and> query_id (heap s n) = k)"
      by (auto simp: fx)
  qed
  show ?thesis
    unfolding indexed_def using fs cc att tta1 tta2 by blast
qed

lemma walkedBy_Nil: "walkedBy am qm tree h [] = {}"
  by (simp add: walkedBy_def)

lemma walkedBy_Cons:
  "walkedBy am qm tree h (r # rs) =
     (case resolved am qm h r of
        None \<Rightarrow> {}
      | Some aq \<Rightarrow> {aq} \<times> rootWalked tree h r) \<union> walkedBy am qm tree h rs"
  by (auto simp: walkedBy_def split: option.splits)

lemma walkedBy_fixed:
  "fixed_same h h' \<Longrightarrow> walkedBy am qm tree h' rs = walkedBy am qm tree h rs"
  by (simp add: walkedBy_def fixed_same_sets)

lemma rootLoop_indexed:
  "rootLoop fuel rs am qm tree (s, cg, qcq) = Inr (s', cg', qcq') \<Longrightarrow>
     indexed (walkedBy am qm tree (heap s) rs) tree s s'"
proof (induction rs arbitrary: s cg qcq)
  case Nil
  then show ?case by (simp add: walkedBy_Nil indexed_refl)
next
  case (Cons r rs)
  show ?case
  proof (cases "resolved am qm (heap s) r")
    case None
    with Cons.prems have "rootLoop fuel rs am qm tree (s, cg, qcq) = Inr (s', cg', qcq')"
      by (simp add: rootLoop_skip del: rootLoop.simps)
    from Cons.IH [OF this] None show ?thesis
      by (simp add: walkedBy_Cons)
  next
    case (Some aq)
    obtain a q where aq: "aq = (a, q)" by (cases aq)
    let ?s1 = "s\<lparr>heap := (heap s)(r := (heap s r)
                      \<lparr>groups := Some (get_or_empty tree (query_id (heap s r)))\<rparr>)\<rparr>"
    from rootLoop_step [OF Some [unfolded aq] Cons.prems] obtain s2 where
      e: "effect (rootWalked tree (heap s) r)
             (activeIn tree (heap s) (rootWalked tree (heap s) r)) a q tree ?s1 s2" and
      rest: "rootLoop fuel rs am qm tree
                 (s2, cg @ [r], addOneToMultiMap qcq (question_id q) r) = Inr (s', cg', qcq')"
      by blast
    have fs1: "fixed_same (heap s) (heap ?s1)" by (simp add: fixed_same_upd_groups)
    have i0: "indexed {} tree s ?s1"
      by (rule indexed_heap_only) (simp add: fixed_same_upd_groups)
    have e': "effect (rootWalked tree (heap s) r)
             (activeIn tree (heap ?s1) (rootWalked tree (heap s) r)) a q tree ?s1 s2"
      using e by (simp only: fixed_same_sets(6) [OF fs1])
    have i1: "indexed ({(a, q)} \<times> rootWalked tree (heap s) r) tree ?s1 s2"
      by (rule indexed_effect [OF e'])
    have i01: "indexed ({} \<union> {(a, q)} \<times> rootWalked tree (heap s) r) tree s s2"
      by (rule indexed_trans [OF i0 i1])
    then have fs2: "fixed_same (heap s) (heap s2)" by (simp add: indexed_def)
    have i2: "indexed (walkedBy am qm tree (heap s) rs) tree s2 s'"
      using Cons.IH [OF rest] by (simp add: walkedBy_fixed [OF fs2])
    have "indexed (({} \<union> {(a, q)} \<times> rootWalked tree (heap s) r)
                     \<union> walkedBy am qm tree (heap s) rs) tree s s'"
      by (rule indexed_trans [OF i01 i2])
    then show ?thesis
      using Some aq by (simp add: walkedBy_Cons)
  qed
qed

lemma rootLoop_sort_frame:
  "rootLoop fuel rs am qm tree (s, cg, qcq) = Inr (s', cg', qcq') \<Longrightarrow>
   n \<notin> snd ` walkedBy am qm tree (heap s) rs \<Longrightarrow>
   sortDirection (heap s' n) = sortDirection (heap s n)"
proof (induction rs arbitrary: s cg qcq)
  case Nil
  then show ?case by simp
next
  case (Cons r rs)
  show ?case
  proof (cases "resolved am qm (heap s) r")
    case None
    with Cons.prems(1) have rest: "rootLoop fuel rs am qm tree (s, cg, qcq) = Inr (s', cg', qcq')"
      by (simp add: rootLoop_skip del: rootLoop.simps)
    have "n \<notin> snd ` walkedBy am qm tree (heap s) rs"
      using Cons.prems(2) by (auto simp: walkedBy_Cons)
    from Cons.IH [OF rest this] show ?thesis .
  next
    case (Some aq)
    obtain a q where aq: "aq = (a, q)" by (cases aq)
    let ?s1 = "s\<lparr>heap := (heap s)(r := (heap s r)
                      \<lparr>groups := Some (get_or_empty tree (query_id (heap s r)))\<rparr>)\<rparr>"
    from rootLoop_step [OF Some [unfolded aq] Cons.prems(1)] obtain s2 where
      e: "effect (rootWalked tree (heap s) r)
             (activeIn tree (heap s) (rootWalked tree (heap s) r)) a q tree ?s1 s2" and
      rest: "rootLoop fuel rs am qm tree
                 (s2, cg @ [r], addOneToMultiMap qcq (question_id q) r) = Inr (s', cg', qcq')"
      by blast
    have nW: "n \<notin> rootWalked tree (heap s) r" and nR: "n \<notin> snd ` walkedBy am qm tree (heap s) rs"
      using Cons.prems(2) Some aq by (auto simp: walkedBy_Cons image_Un)
    have "fixed_same (heap s) (heap ?s1)" by (simp add: fixed_same_upd_groups)
    from fixed_same_trans [OF this effect_fixed_same [OF e]]
    have fs2: "fixed_same (heap s) (heap s2)" .
    have "sortDirection (heap s' n) = sortDirection (heap s2 n)"
      using Cons.IH [OF rest] nR by (simp add: walkedBy_fixed [OF fs2])
    also have "heap s2 n = heap ?s1 n"
      using effect_heapD [OF e, of n] nW by simp
    also have "sortDirection (heap ?s1 n) = sortDirection (heap s n)"
      by simp
    finally show ?thesis .
  qed
qed

lemma rootLoop_sort_last:
  "rootLoop fuel (pre @ r # post) am qm tree (s, cg, qcq) = Inr (s', cg', qcq') \<Longrightarrow>
   resolved am qm (heap s) r = Some (a, q) \<Longrightarrow>
   n \<in> rootWalked tree (heap s) r \<Longrightarrow>
   n \<notin> snd ` walkedBy am qm tree (heap s) post \<Longrightarrow>
   sortDirection (heap s' n) = question_sortDirection q"
proof (induction pre arbitrary: s cg qcq)
  case Nil
  let ?s1 = "s\<lparr>heap := (heap s)(r := (heap s r)
                      \<lparr>groups := Some (get_or_empty tree (query_id (heap s r)))\<rparr>)\<rparr>"
  from rootLoop_step [OF Nil.prems(2)] Nil.prems(1) obtain s2 where
    e: "effect (rootWalked tree (heap s) r)
           (activeIn tree (heap s) (rootWalked tree (heap s) r)) a q tree ?s1 s2" and
    rest: "rootLoop fuel post am qm tree
               (s2, cg @ [r], addOneToMultiMap qcq (question_id q) r) = Inr (s', cg', qcq')"
    by (metis append_Nil)
  have "fixed_same (heap s) (heap ?s1)" by (simp add: fixed_same_upd_groups)
  from fixed_same_trans [OF this effect_fixed_same [OF e]]
  have fs2: "fixed_same (heap s) (heap s2)" .
  have "sortDirection (heap s' n) = sortDirection (heap s2 n)"
    using rootLoop_sort_frame [OF rest] Nil.prems(4) by (simp add: walkedBy_fixed [OF fs2])
  also have "heap s2 n = visited q tree (heap ?s1 n)"
    using effect_heapD [OF e, of n] Nil.prems(3) by simp
  finally show ?case by simp
next
  case (Cons p pre)
  show ?case
  proof (cases "resolved am qm (heap s) p")
    case None
    with Cons.prems(1) have rest:
      "rootLoop fuel (pre @ r # post) am qm tree (s, cg, qcq) = Inr (s', cg', qcq')"
      by (simp add: rootLoop_skip del: rootLoop.simps)
    from Cons.IH [OF rest Cons.prems(2,3,4)] show ?thesis .
  next
    case (Some aq)
    obtain a' q' where aq: "aq = (a', q')" by (cases aq)
    let ?s1 = "s\<lparr>heap := (heap s)(p := (heap s p)
                      \<lparr>groups := Some (get_or_empty tree (query_id (heap s p)))\<rparr>)\<rparr>"
    from rootLoop_step [OF Some [unfolded aq]] Cons.prems(1) obtain s2 where
      e: "effect (rootWalked tree (heap s) p)
             (activeIn tree (heap s) (rootWalked tree (heap s) p)) a' q' tree ?s1 s2" and
      rest: "rootLoop fuel (pre @ r # post) am qm tree
                 (s2, cg @ [p], addOneToMultiMap qcq (question_id q') p) = Inr (s', cg', qcq')"
      by (metis append_Cons)
    have "fixed_same (heap s) (heap ?s1)" by (simp add: fixed_same_upd_groups)
    from fixed_same_trans [OF this effect_fixed_same [OF e]]
    have fs2: "fixed_same (heap s) (heap s2)" .
    show ?thesis
      using Cons.IH [OF rest] Cons.prems(2,3,4)
      by (simp add: walkedBy_fixed [OF fs2] fixed_same_sets [OF fs2])
  qed
qed

lemma walkRootGroups_fuel_Suc:
  "walkRootGroups fuel cs a q tree s = Inr s' \<Longrightarrow> walkRootGroups (Suc fuel) cs a q tree s = Inr s'"
proof (induction cs arbitrary: s)
  case Nil
  then show ?case by simp
next
  case (Cons c cs)
  from Cons.prems obtain s1 where
    s1: "walkTree fuel c a q tree s = Inr s1" and
    rest: "walkRootGroups fuel cs a q tree s1 = Inr s'"
    by (auto split: sum.splits simp del: walkTree.simps)
  from walkTree_fuel_Suc [OF s1] Cons.IH [OF rest] show ?case
    by (simp del: walkTree.simps)
qed

lemma rootLoop_fuel_Suc:
  "rootLoop fuel rs am qm tree acc = Inr res \<Longrightarrow> rootLoop (Suc fuel) rs am qm tree acc = Inr res"
proof (induction rs arbitrary: acc)
  case Nil
  then show ?case by simp
next
  case (Cons r rs)
  obtain s cg qcq where acc: "acc = (s, cg, qcq)" by (cases acc)
  show ?case
  proof (cases "resolved am qm (heap s) r")
    case None
    with Cons show ?thesis
      unfolding acc by (simp add: rootLoop_skip del: rootLoop.simps)
  next
    case (Some aq)
    obtain a q where aq: "aq = (a, q)" by (cases aq)
    let ?gs = "get_or_empty tree (query_id (heap s r))"
    let ?s1 = "s\<lparr>heap := (heap s)(r := (heap s r)\<lparr>groups := Some ?gs\<rparr>)\<rparr>"
    from Cons.prems Some aq obtain s2 where
      w: "walkRootGroups fuel ?gs a q tree ?s1 = Inr s2" and
      rest: "rootLoop fuel rs am qm tree (s2, cg @ [r], addOneToMultiMap qcq (question_id q) r) = Inr res"
      unfolding acc
      by (auto simp: resolved_def Let_def split: option.splits sum.splits)
    from walkRootGroups_fuel_Suc [OF w] Cons.IH [OF rest] Some aq show ?thesis
      unfolding acc
      by (auto simp: resolved_def Let_def split: option.splits sum.splits)
  qed
qed

subsection \<open>The whole call\<close>

lemma getDataCollectorQuery_rootLoop:
  assumes load: "getSectionsQuestionsAndAnswers projectId = (sectionMap, questionMap, answerMap)"
      and run: "getDataCollectorQuery fuel getSectionsQuestionsAndAnswers h projectId queryRepository
                  = Inr res"
  shows "\<exists>s cg qcq.
           rootLoop fuel (rootQueries questionMap (map snd answerMap)) answerMap questionMap
             (parentIndex h queryRepository (rootQueries questionMap (map snd answerMap)))
             (initial_store h, [], Map.empty) = Inr (s, cg, qcq)
           \<and> res_heap res = heap s
           \<and> res_answerToTermsMap res = answerToTermsMap s
           \<and> res_termToAnswerMap res = termToAnswerMap s
           \<and> res_collectedChildrenMap res = collectedChildrenMap s"
proof (cases "rootQueries questionMap (map snd answerMap) = []")
  case True
  with load run show ?thesis
    by (auto simp: getDataCollectorQuery_def initial_store_def)
next
  case False
  with load run show ?thesis
    by (auto simp: getDataCollectorQuery_def initial_store_def parentIndex_def Let_def
          split: prod.splits sum.splits)
qed

lemma getDataCollectorQuery_fuel_Suc:
  assumes run: "getDataCollectorQuery fuel load h projectId queryRepository = Inr res"
  shows "getDataCollectorQuery (Suc fuel) load h projectId queryRepository = Inr res"
proof -
  obtain sm qm am where load: "load projectId = (sm, qm, am)"
    by (cases "load projectId")
  let ?rqs = "rootQueries qm (map snd am)"
  show ?thesis
  proof (cases "?rqs = []")
    case True
    with run load show ?thesis
      by (simp add: getDataCollectorQuery_def)
  next
    case False
    obtain tree termMap where
      bt: "buildQueryTree h (findDescendantsForEntities queryRepository ?rqs) = (tree, termMap)"
      by (cases "buildQueryTree h (findDescendantsForEntities queryRepository ?rqs)")
    let ?init = "(\<lparr>heap = h, termToAnswerMap = Map.empty, answerToTermsMap = Map.empty,
                   collectedChildrenMap = Map.empty\<rparr>, [] :: addr list,
                  Map.empty :: string \<rightharpoonup> addr list)"
    have unfold: "\<And>f. getDataCollectorQuery f load h projectId queryRepository =
        (case rootLoop f ?rqs am qm tree ?init of
           Inl e \<Rightarrow> Inl e
         | Inr (s, combinedGroups, qcq) \<Rightarrow>
             Inr \<lparr>res_combinedQuery =
                    Some \<lparr>combined_match = MatchAny, combined_groups = combinedGroups\<rparr>,
                  res_answerToTermsMap = answerToTermsMap s,
                  res_termToAnswerMap = termToAnswerMap s,
                  res_answerMap = am,
                  res_terms = findDescendantsForEntities queryRepository ?rqs,
                  res_termMap = termMap,
                  res_collectedChildrenMap = collectedChildrenMap s,
                  res_sectionMap = sm,
                  res_heap = heap s,
                  res_repositoryCalls = [?rqs]\<rparr>)"
      using load False bt by (simp add: getDataCollectorQuery_def Let_def)
    from run obtain acc where loop: "rootLoop fuel ?rqs am qm tree ?init = Inr acc"
      unfolding unfold by (cases "rootLoop fuel ?rqs am qm tree ?init") simp_all
    from rootLoop_fuel_Suc [OF loop] loop run show ?thesis
      unfolding unfold by simp
  qed
qed

lemma run_indexed:
  assumes load: "getSectionsQuestionsAndAnswers projectId = (sectionMap, questionMap, answerMap)"
      and run: "getDataCollectorQuery fuel getSectionsQuestionsAndAnswers h projectId queryRepository
                  = Inr res"
  shows "\<exists>s. indexed (walkedBy answerMap questionMap
                 (parentIndex h queryRepository (rootQueries questionMap (map snd answerMap))) h
                 (rootQueries questionMap (map snd answerMap)))
              (parentIndex h queryRepository (rootQueries questionMap (map snd answerMap)))
              (initial_store h) s
           \<and> res_heap res = heap s
           \<and> res_answerToTermsMap res = answerToTermsMap s
           \<and> res_termToAnswerMap res = termToAnswerMap s
           \<and> res_collectedChildrenMap res = collectedChildrenMap s"
proof -
  from getDataCollectorQuery_rootLoop [OF load run] obtain s cg qcq where
    loop: "rootLoop fuel (rootQueries questionMap (map snd answerMap)) answerMap questionMap
             (parentIndex h queryRepository (rootQueries questionMap (map snd answerMap)))
             (initial_store h, [], Map.empty) = Inr (s, cg, qcq)" and
    eqs: "res_heap res = heap s" "res_answerToTermsMap res = answerToTermsMap s"
         "res_termToAnswerMap res = termToAnswerMap s"
         "res_collectedChildrenMap res = collectedChildrenMap s"
    by blast
  from rootLoop_indexed [OF loop] eqs show ?thesis
    by (auto simp: initial_store_def)
qed

lemma indexed_initialD:
  assumes "indexed T tree (initial_store h) s"
  shows "collectedChildrenMap s k =
            (if \<exists>a q n. ((a, q), n) \<in> T \<and> query_id (h n) = k \<and> active tree (h n)
             then Some (\<exists>c \<in> set (get_or_empty tree k). collect (h c))
             else None)"
    and "set (get_or_empty (answerToTermsMap s) k) = {n. \<exists>a q. ((a, q), n) \<in> T \<and> answer_id a = k}"
    and "(termToAnswerMap s k = None) = (\<not> (\<exists>a q n. ((a, q), n) \<in> T \<and> query_id (h n) = k))"
proof -
  have h0: "heap (initial_store h) = h" "collectedChildrenMap (initial_store h) k = None"
    "get_or_empty (answerToTermsMap (initial_store h)) k = []"
    "termToAnswerMap (initial_store h) k = None"
    by (simp_all add: initial_store_def get_or_empty_def)
  have "collectedChildrenMap s k =
            (if \<exists>a q n. ((a, q), n) \<in> T \<and> query_id (heap (initial_store h) n) = k
                   \<and> active tree (heap (initial_store h) n)
             then Some (\<exists>c \<in> set (get_or_empty tree k). collect (heap (initial_store h) c))
             else collectedChildrenMap (initial_store h) k)"
    using assms unfolding indexed_def by blast
  then show "collectedChildrenMap s k =
            (if \<exists>a q n. ((a, q), n) \<in> T \<and> query_id (h n) = k \<and> active tree (h n)
             then Some (\<exists>c \<in> set (get_or_empty tree k). collect (h c))
             else None)"
    unfolding h0 .
  have "set (get_or_empty (answerToTermsMap s) k) =
            set (get_or_empty (answerToTermsMap (initial_store h)) k)
              \<union> {n. \<exists>a q. ((a, q), n) \<in> T \<and> answer_id a = k}"
    using assms unfolding indexed_def by blast
  then show "set (get_or_empty (answerToTermsMap s) k) = {n. \<exists>a q. ((a, q), n) \<in> T \<and> answer_id a = k}"
    unfolding h0 by simp
  have "(termToAnswerMap s k = None) =
            (termToAnswerMap (initial_store h) k = None
              \<and> \<not> (\<exists>a q n. ((a, q), n) \<in> T \<and> query_id (heap (initial_store h) n) = k))"
    using assms unfolding indexed_def by blast
  then show "(termToAnswerMap s k = None) = (\<not> (\<exists>a q n. ((a, q), n) \<in> T \<and> query_id (h n) = k))"
    unfolding h0 by simp
qed

lemma walked_from_disabled: "walked tree h d n \<Longrightarrow> disabled (h d) \<Longrightarrow> n = d"
  by (subst (asm) walked_iff) simp

lemma walked_to_disabled: "walked tree h c n \<Longrightarrow> disabled (h n) \<Longrightarrow> n = c"
  by (induction rule: walked.induct) auto

text \<open>
  A node that no walk reaches keeps the sort direction it had; a node that a walk reaches
  has the sort direction of the question of the last root that reaches it.
\<close>

lemma sortDirection_untouched:
  assumes load: "getSectionsQuestionsAndAnswers projectId = (sectionMap, questionMap, answerMap)"
      and run: "getDataCollectorQuery fuel getSectionsQuestionsAndAnswers h projectId queryRepository
                  = Inr res"
      and tree: "tree = parentIndex h queryRepository (rootQueries questionMap (map snd answerMap))"
      and never: "\<forall>r \<in> set (rootQueries questionMap (map snd answerMap)).
                    resolved answerMap questionMap h r \<noteq> None \<longrightarrow> n \<notin> rootWalked tree h r"
  shows "sortDirection (res_heap res n) = sortDirection (h n)"
proof -
  from getDataCollectorQuery_rootLoop [OF load run] tree obtain s cg qcq where
    loop: "rootLoop fuel (rootQueries questionMap (map snd answerMap)) answerMap questionMap tree
             (initial_store h, [], Map.empty) = Inr (s, cg, qcq)" and
    hp: "res_heap res = heap s"
    by auto
  have "n \<notin> snd ` walkedBy answerMap questionMap tree (heap (initial_store h))
                   (rootQueries questionMap (map snd answerMap))"
    using never by (auto simp: walkedBy_def initial_store_def)
  from rootLoop_sort_frame [OF loop this] hp show ?thesis
    by (simp add: initial_store_def)
qed

lemma sortDirection_of_reached:
  assumes load: "getSectionsQuestionsAndAnswers projectId = (sectionMap, questionMap, answerMap)"
      and run: "getDataCollectorQuery fuel getSectionsQuestionsAndAnswers h projectId queryRepository
                  = Inr res"
      and roots: "rootQueries questionMap (map snd answerMap) = pre @ rootQuery # post"
      and tree: "tree = parentIndex h queryRepository (pre @ rootQuery # post)"
      and owner: "resolved answerMap questionMap h rootQuery = Some (a, q)"
      and reached: "n \<in> rootWalked tree h rootQuery"
      and later: "\<forall>r \<in> set post. resolved answerMap questionMap h r \<noteq> None \<longrightarrow> n \<notin> rootWalked tree h r"
  shows "sortDirection (res_heap res n) = question_sortDirection q"
proof -
  from getDataCollectorQuery_rootLoop [OF load run] roots tree obtain s cg qcq where
    loop: "rootLoop fuel (pre @ rootQuery # post) answerMap questionMap tree
             (initial_store h, [], Map.empty) = Inr (s, cg, qcq)" and
    hp: "res_heap res = heap s"
    by auto
  have notlater: "n \<notin> snd ` walkedBy answerMap questionMap tree (heap (initial_store h)) post"
    using later by (auto simp: walkedBy_def initial_store_def)
  have "sortDirection (heap s n) = question_sortDirection q"
    by (rule rootLoop_sort_last [OF loop _ _ notlater])
       (simp_all add: initial_store_def owner reached)
  with hp show ?thesis by simp
qed


lemma registration_of_run:
  assumes load: "getSectionsQuestionsAndAnswers projectId = (sectionMap, questionMap, answerMap)"
      and run: "getDataCollectorQuery fuel getSectionsQuestionsAndAnswers h projectId queryRepository
                  = Inr res"
      and roots: "rqs = rootQueries questionMap (map snd answerMap)"
      and tree: "tree = parentIndex h queryRepository rqs"
  shows "(r \<in> set rqs \<and> resolved answerMap questionMap h r = Some (a, q)
            \<and> d \<in> set (get_or_empty tree (query_id (h r)))
          \<longrightarrow> d \<in> set (get_or_empty (res_answerToTermsMap res) (answer_id a))
              \<and> res_termToAnswerMap res (query_id (h d)) \<noteq> None)
       \<and> (disabled (h d) \<and> walked tree h d m \<longrightarrow> m = d)
       \<and> (n \<in> set (get_or_empty (res_answerToTermsMap res) k))
          = (\<exists>r' \<in> set rqs. \<exists>a' q'. resolved answerMap questionMap h r' = Some (a', q')
                 \<and> answer_id a' = k
                 \<and> (\<exists>c \<in> set (get_or_empty tree (query_id (h r'))).
                       walked tree h c n \<and> (disabled (h n) \<longrightarrow> n = c)))
       \<and> (res_termToAnswerMap res k \<noteq> None)
          = (\<exists>r' \<in> set rqs. resolved answerMap questionMap h r' \<noteq> None
                 \<and> (\<exists>n' \<in> rootWalked tree h r'. query_id (h n') = k))"
proof -
  from run_indexed [OF load run] roots tree obtain s where
    ix: "indexed (walkedBy answerMap questionMap tree h rqs) tree (initial_store h) s" and
    att: "res_answerToTermsMap res = answerToTermsMap s" and
    tta: "res_termToAnswerMap res = termToAnswerMap s"
    by auto
  note attk = indexed_initialD(2) [OF ix]
  note ttak = indexed_initialD(3) [OF ix]
  have 1: "r \<in> set rqs \<and> resolved answerMap questionMap h r = Some (a, q)
            \<and> d \<in> set (get_or_empty tree (query_id (h r)))
          \<longrightarrow> d \<in> set (get_or_empty (res_answerToTermsMap res) (answer_id a))
              \<and> res_termToAnswerMap res (query_id (h d)) \<noteq> None"
  proof
    assume A: "r \<in> set rqs \<and> resolved answerMap questionMap h r = Some (a, q)
            \<and> d \<in> set (get_or_empty tree (query_id (h r)))"
    then have "d \<in> rootWalked tree h r"
      by (auto simp: rootWalked_def intro: walked_self)
    with A have w: "((a, q), d) \<in> walkedBy answerMap questionMap tree h rqs"
      by (auto simp: walkedBy_def)
    then have "d \<in> set (get_or_empty (answerToTermsMap s) (answer_id a))"
      unfolding attk by blast
    moreover have "termToAnswerMap s (query_id (h d)) \<noteq> None"
      unfolding ttak using w by blast
    ultimately show "d \<in> set (get_or_empty (res_answerToTermsMap res) (answer_id a))
              \<and> res_termToAnswerMap res (query_id (h d)) \<noteq> None"
      by (simp add: att tta)
  qed
  have 2: "disabled (h d) \<and> walked tree h d m \<longrightarrow> m = d"
    using walked_from_disabled by blast
  have 3: "(n \<in> set (get_or_empty (res_answerToTermsMap res) k))
          = (\<exists>r' \<in> set rqs. \<exists>a' q'. resolved answerMap questionMap h r' = Some (a', q')
                 \<and> answer_id a' = k
                 \<and> (\<exists>c \<in> set (get_or_empty tree (query_id (h r'))).
                       walked tree h c n \<and> (disabled (h n) \<longrightarrow> n = c)))"
  proof
    assume "n \<in> set (get_or_empty (res_answerToTermsMap res) k)"
    then obtain a' q' where "((a', q'), n) \<in> walkedBy answerMap questionMap tree h rqs"
        and k: "answer_id a' = k"
      unfolding att attk by blast
    then obtain r' c where r': "r' \<in> set rqs" "resolved answerMap questionMap h r' = Some (a', q')"
        and c: "c \<in> set (get_or_empty tree (query_id (h r')))" "walked tree h c n"
      by (auto simp: walkedBy_def rootWalked_def)
    from c(2) have "disabled (h n) \<longrightarrow> n = c" using walked_to_disabled by blast
    with r' c k show "\<exists>r' \<in> set rqs. \<exists>a' q'. resolved answerMap questionMap h r' = Some (a', q')
                 \<and> answer_id a' = k
                 \<and> (\<exists>c \<in> set (get_or_empty tree (query_id (h r'))).
                       walked tree h c n \<and> (disabled (h n) \<longrightarrow> n = c))"
      by blast
  next
    assume "\<exists>r' \<in> set rqs. \<exists>a' q'. resolved answerMap questionMap h r' = Some (a', q')
                 \<and> answer_id a' = k
                 \<and> (\<exists>c \<in> set (get_or_empty tree (query_id (h r'))).
                       walked tree h c n \<and> (disabled (h n) \<longrightarrow> n = c))"
    then obtain r' a' q' c where "r' \<in> set rqs" "resolved answerMap questionMap h r' = Some (a', q')"
        "answer_id a' = k" "c \<in> set (get_or_empty tree (query_id (h r')))" "walked tree h c n"
      by blast
    then have "((a', q'), n) \<in> walkedBy answerMap questionMap tree h rqs \<and> answer_id a' = k"
      by (auto simp: walkedBy_def rootWalked_def)
    then show "n \<in> set (get_or_empty (res_answerToTermsMap res) k)"
      unfolding att attk by blast
  qed
  have 4: "(res_termToAnswerMap res k \<noteq> None)
          = (\<exists>r' \<in> set rqs. resolved answerMap questionMap h r' \<noteq> None
                 \<and> (\<exists>n' \<in> rootWalked tree h r'. query_id (h n') = k))"
    unfolding tta ttak by (auto simp: walkedBy_def)
  from 1 2 3 4 show ?thesis by blast
qed

subsection \<open>The call returns\<close>

text \<open>
  A walk that fits the fuel returns. When the fetched nodes are ranked and the fuel exceeds
  every rank, every walk the root loop starts fits, and the call returns.
\<close>

lemma walk_fits_fixed:
  assumes "fixed_same h h'"
  shows "walk_fits d tree h' t = walk_fits d tree h t"
  by (induction d arbitrary: t) (simp_all add: fixed_sameD [OF assms])

lemma ranked_fits:
  assumes r: "ranked tree h nodes rank"
      and closed: "\<And>k. set (get_or_empty tree k) \<subseteq> set nodes"
  shows "t \<in> set nodes \<Longrightarrow> rank t < fuel \<Longrightarrow> walk_fits fuel tree h t"
proof (induction fuel arbitrary: t)
  case 0
  then show ?case by simp
next
  case (Suc fuel)
  show ?case
  proof (cases "disabled (h t)")
    case True
    then show ?thesis by simp
  next
    case False
    have "\<forall>c \<in> set (get_or_empty tree (query_id (h t))). disabled (h c) \<or> walk_fits fuel tree h c"
    proof
      fix c assume c: "c \<in> set (get_or_empty tree (query_id (h t)))"
      show "disabled (h c) \<or> walk_fits fuel tree h c"
      proof (cases "disabled (h c)")
        case True
        then show ?thesis by simp
      next
        case en: False
        have "rank c < rank t"
          using r Suc.prems(1) False c en unfolding ranked_def by blast
        with Suc.prems(2) have "rank c < fuel" by simp
        moreover have "c \<in> set nodes" using closed c by blast
        ultimately show ?thesis using Suc.IH by blast
      qed
    qed
    then show ?thesis by simp
  qed
qed

lemma walkChildren_returns_aux:
  assumes IH: "\<And>t s. walk_fits fuel tree (heap s) t \<Longrightarrow> \<exists>s'. walkTree fuel t a q tree s = Inr s'"
  shows "\<forall>c \<in> set cs. disabled (heap s c) \<or> walk_fits fuel tree (heap s) c \<Longrightarrow>
         \<exists>s'. walkChildren fuel cs a q tree s = Inr s'"
proof (induction cs arbitrary: s)
  case Nil
  show ?case by simp
next
  case (Cons c cs)
  show ?case
  proof (cases "disabled (heap s c)")
    case True
    with Cons show ?thesis by (simp del: walkTree.simps)
  next
    case False
    with Cons.prems have "walk_fits fuel tree (heap s) c" by simp
    from IH [OF this] obtain s1 where s1: "walkTree fuel c a q tree s = Inr s1" by blast
    have fs: "fixed_same (heap s) (heap s1)"
      by (rule effect_fixed_same [OF walkTree_effect [OF s1]])
    have "\<forall>c \<in> set cs. disabled (heap s1 c) \<or> walk_fits fuel tree (heap s1) c"
      using Cons.prems by (simp add: walk_fits_fixed [OF fs] fixed_sameD [OF fs])
    from Cons.IH [OF this] obtain s' where "walkChildren fuel cs a q tree s1 = Inr s'" by blast
    with s1 False show ?thesis by (simp del: walkTree.simps)
  qed
qed

lemma walkTree_returns:
  "walk_fits fuel tree (heap s) t \<Longrightarrow> \<exists>s'. walkTree fuel t a q tree s = Inr s'"
proof (induction fuel arbitrary: t s)
  case 0
  then show ?case by simp
next
  case (Suc fuel)
  let ?s4 = "enter t a q tree s"
  let ?gs = "get_or_empty tree (query_id (heap s t))"
  note e0 = effect_enter [of t a q tree s]
  show ?case
  proof (cases "disabled (heap s t) \<or> ?gs = []")
    case True
    then show ?thesis
      by (simp add: walkTree_Suc Let_def del: walkTree.simps)
  next
    case False
    have fs: "fixed_same (heap s) (heap ?s4)" by (rule effect_fixed_same [OF e0])
    have "\<forall>c \<in> set ?gs. disabled (heap ?s4 c) \<or> walk_fits fuel tree (heap ?s4) c"
      using Suc.prems False by (simp add: walk_fits_fixed [OF fs] fixed_sameD [OF fs])
    from walkChildren_returns_aux [of fuel tree a q ?gs ?s4, OF Suc.IH this]
    obtain s5 where s5: "walkChildren fuel ?gs a q tree ?s4 = Inr s5" by blast
    note e1 = walkChildren_effect [OF s5]
    have "groups (heap s5 t) = Some ?gs"
      using effect_heapD [OF e1, of t] effect_heapD [OF e0, of t]
      by (simp split: if_splits)
    with s5 False show ?thesis
      by (simp add: walkTree_Suc Let_def del: walkTree.simps)
  qed
qed

lemma walkRootGroups_returns:
  "\<forall>c \<in> set cs. walk_fits fuel tree (heap s) c \<Longrightarrow>
   \<exists>s'. walkRootGroups fuel cs a q tree s = Inr s'"
proof (induction cs arbitrary: s)
  case Nil
  show ?case by simp
next
  case (Cons c cs)
  then have "walk_fits fuel tree (heap s) c" by simp
  from walkTree_returns [OF this] obtain s1 where s1: "walkTree fuel c a q tree s = Inr s1" by blast
  have fs: "fixed_same (heap s) (heap s1)"
    by (rule effect_fixed_same [OF walkTree_effect [OF s1]])
  have "\<forall>c \<in> set cs. walk_fits fuel tree (heap s1) c"
    using Cons.prems by (simp add: walk_fits_fixed [OF fs])
  from Cons.IH [OF this] obtain s' where "walkRootGroups fuel cs a q tree s1 = Inr s'" by blast
  with s1 show ?case by (simp del: walkTree.simps)
qed

lemma rootLoop_returns:
  "\<forall>c. walk_fits fuel tree (heap s) c \<or> (\<forall>k. c \<notin> set (get_or_empty tree k)) \<Longrightarrow>
   \<exists>res. rootLoop fuel rs am qm tree (s, cg, qcq) = Inr res"
proof (induction rs arbitrary: s cg qcq)
  case Nil
  show ?case by simp
next
  case (Cons r rs)
  show ?case
  proof (cases "resolved am qm (heap s) r")
    case None
    with Cons show ?thesis
      by (simp add: rootLoop_skip del: rootLoop.simps)
  next
    case (Some aq)
    obtain a q where aq: "aq = (a, q)" by (cases aq)
    let ?gs = "get_or_empty tree (query_id (heap s r))"
    let ?s1 = "s\<lparr>heap := (heap s)(r := (heap s r)\<lparr>groups := Some ?gs\<rparr>)\<rparr>"
    have fs1: "fixed_same (heap s) (heap ?s1)" by (simp add: fixed_same_upd_groups)
    have "\<forall>c \<in> set ?gs. walk_fits fuel tree (heap ?s1) c"
      using Cons.prems unfolding walk_fits_fixed [OF fs1] by blast
    from walkRootGroups_returns [OF this] obtain s2 where
      w: "walkRootGroups fuel ?gs a q tree ?s1 = Inr s2" by blast
    have "fixed_same (heap ?s1) (heap s2)"
      by (rule effect_fixed_same [OF walkRootGroups_effect [OF w]])
    from fixed_same_trans [OF fs1 this] have fs2: "fixed_same (heap s) (heap s2)" .
    have "\<forall>c. walk_fits fuel tree (heap s2) c \<or> (\<forall>k. c \<notin> set (get_or_empty tree k))"
      using Cons.prems unfolding walk_fits_fixed [OF fs2] .
    from Cons.IH [OF this] obtain res where
      "rootLoop fuel rs am qm tree (s2, cg @ [r], addOneToMultiMap qcq (question_id q) r) = Inr res"
      by blast
    with w Some aq show ?thesis
      by (cases res) (auto simp: resolved_def Let_def split: option.splits)
  qed
qed

lemma buildQueryTree_children:
  "get_or_empty (fst (buildQueryTree h terms)) k
     = filter (\<lambda>t. resolvable_parent h t \<and> parent_id h t = k) terms"
  unfolding buildQueryTree_def buildLoop_tree
  by (simp add: get_or_empty_def split: list.splits)

lemma getDataCollectorQuery_returns:
  assumes load: "getSectionsQuestionsAndAnswers projectId = (sectionMap, questionMap, answerMap)"
      and terms: "terms = findDescendantsForEntities queryRepository
                            (rootQueries questionMap (map snd answerMap))"
      and acyclic: "ranked (fst (buildQueryTree h terms)) h terms rank"
      and enough: "\<forall>c \<in> set terms. rank c < fuel"
  shows "\<exists>res. getDataCollectorQuery fuel getSectionsQuestionsAndAnswers h projectId queryRepository
                 = Inr res"
proof (cases "rootQueries questionMap (map snd answerMap) = []")
  case True
  with load show ?thesis by (simp add: getDataCollectorQuery_def)
next
  case False
  let ?tree = "fst (buildQueryTree h terms)"
  have closed: "\<And>k. set (get_or_empty ?tree k) \<subseteq> set terms"
    by (auto simp: buildQueryTree_children)
  have fits: "\<forall>c. walk_fits fuel ?tree h c \<or> (\<forall>k. c \<notin> set (get_or_empty ?tree k))"
  proof
    fix c
    show "walk_fits fuel ?tree h c \<or> (\<forall>k. c \<notin> set (get_or_empty ?tree k))"
    proof (cases "c \<in> set terms")
      case True
      with enough have "rank c < fuel" by blast
      from ranked_fits [OF acyclic closed True this] show ?thesis by blast
    next
      case False
      with closed show ?thesis by blast
    qed
  qed
  obtain termMap where bt: "buildQueryTree h terms = (?tree, termMap)"
    by (cases "buildQueryTree h terms") simp
  from rootLoop_returns [of fuel ?tree "initial_store h", OF _] fits
  obtain acc where loop:
    "rootLoop fuel (rootQueries questionMap (map snd answerMap)) answerMap questionMap ?tree
       (initial_store h, [], Map.empty) = Inr acc"
    by (metis initial_store_def store.select_convs(1))
  obtain s cg qcq where acc: "acc = (s, cg, qcq)" by (cases acc)
  show ?thesis
    using load False loop acc terms
    by (auto simp: getDataCollectorQuery_def Let_def initial_store_def split: prod.splits)
qed

lemma run_returns:
  assumes load: "getSectionsQuestionsAndAnswers projectId = (sectionMap, questionMap, answerMap)"
      and roots: "rqs = rootQueries questionMap (map snd answerMap)"
      and terms: "terms = findDescendantsForEntities queryRepository rqs"
      and tree: "tree = parentIndex h queryRepository rqs"
  shows "ranked tree h terms rank \<and> (\<forall>c \<in> set terms. rank c < fuel)
           \<longrightarrow> (\<exists>res. getDataCollectorQuery fuel getSectionsQuestionsAndAnswers h projectId
                          queryRepository = Inr res)"
proof
  assume A: "ranked tree h terms rank \<and> (\<forall>c \<in> set terms. rank c < fuel)"
  have t: "terms = findDescendantsForEntities queryRepository
                    (rootQueries questionMap (map snd answerMap))"
    using terms roots by simp
  have tr: "tree = fst (buildQueryTree h terms)"
    using tree terms by (simp add: parentIndex_def)
  from A have a: "ranked (fst (buildQueryTree h terms)) h terms rank"
    and e: "\<forall>c \<in> set terms. rank c < fuel"
    unfolding tr by blast+
  show "\<exists>res. getDataCollectorQuery fuel getSectionsQuestionsAndAnswers h projectId
                          queryRepository = Inr res"
    by (rule getDataCollectorQuery_returns
          [where getSectionsQuestionsAndAnswers = getSectionsQuestionsAndAnswers
             and projectId = projectId, OF load t a e])
qed

subsection \<open>The call on the example\<close>

lemma example_result:
  "\<exists>res. example_run = Inr res
     \<and> res_answerToTermsMap res = [''answer1'' \<mapsto> [10, 11, 14], ''answer2'' \<mapsto> [20]]
     \<and> res_collectedChildrenMap res = [''t'' \<mapsto> True]
     \<and> res_termToAnswerMap res ''d'' = None
     \<and> res_termToAnswerMap res ''x'' = Some answer1
     \<and> sortDirection (res_heap res 5) = Ascending
     \<and> sortDirection (res_heap res 10) = Descending
     \<and> sortDirection (res_heap res 11) = Descending
     \<and> sortDirection (res_heap res 12) = Ascending
     \<and> groups (res_heap res 10) = Some [11, 12]
     \<and> groups (res_heap res 5) = Some [10, 14]
     \<and> res_combinedQuery res = Some \<lparr>combined_match = MatchAny, combined_groups = [5, 6]\<rparr>"
  unfolding example_run_def getDataCollectorQuery_def
  apply (simp add: load_example_def example_roots repo_example_def del: walkTree.simps)
  apply (simp add: buildQueryTree_def addOneToMultiMap_def get_or_empty_def Let_def
      resolveAnswer_def resolveQuestion_def truthy_category_def
      q_single_def q_multi_def qm_example_def answer1_def answer2_def answer3_def am_example_def query_node_def
      heap_example_def)
  done

lemma example_parentIndex: "parentIndex heap_example repo_example [5, 6] = tree_example"
  unfolding parentIndex_def tree_example_def
  using example_tree by (simp add: repo_example_def)

lemma example_resolved:
  "resolved am_example qm_example heap_example 5 = Some (answer1, q_single)"
  "resolved am_example qm_example heap_example 6 = Some (answer2, q_multi)"
  by (simp_all add: resolved_def resolveAnswer_def resolveQuestion_def example_defs)

lemma example_nodes:
  "query_id (heap_example 5) = ''r1''" "query_id (heap_example 6) = ''r2''"
  "query_id (heap_example 10) = ''t''" "query_id (heap_example 11) = ''c''"
  "query_id (heap_example 12) = ''d''" "query_id (heap_example 14) = ''x''"
  "query_id (heap_example 20) = ''u''"
  "\<not> disabled (heap_example 10)" "\<not> disabled (heap_example 11)"
  "disabled (heap_example 12)" "disabled (heap_example 14)" "\<not> disabled (heap_example 20)"
  "category (heap_example 10) = Some Measurement" "category (heap_example 14) = Some Measurement"
  "collect (heap_example 11)" "\<not> collect (heap_example 12)"
  "sortDirection (heap_example 11) = Ascending"
  by (simp_all add: heap_example_def query_node_def)

lemma example_children:
  "get_or_empty tree_example ''r1'' = [10, 14]" "get_or_empty tree_example ''r2'' = [20]"
  "get_or_empty tree_example ''t'' = [11, 12]" "get_or_empty tree_example ''x'' = [15]"
  "get_or_empty tree_example ''u'' = []" "get_or_empty tree_example ''c'' = []"
  by (simp_all add: tree_example_def get_or_empty_def)

lemma example_walked:
  "walked tree_example heap_example 11 n = (n = 11)"
  "walked tree_example heap_example 14 n = (n = 14)"
  "walked tree_example heap_example 20 n = (n = 20)"
  "walked tree_example heap_example 10 n = (n = 10 \<or> n = 11)"
proof -
  show 11: "\<And>n. walked tree_example heap_example 11 n = (n = 11)"
    by (subst walked_iff) (simp add: tree_example_def get_or_empty_def heap_example_def query_node_def)
  show "walked tree_example heap_example 14 n = (n = 14)"
    by (subst walked_iff) (simp add: tree_example_def get_or_empty_def heap_example_def query_node_def)
  show "walked tree_example heap_example 20 n = (n = 20)"
    by (subst walked_iff) (simp add: tree_example_def get_or_empty_def heap_example_def query_node_def)
  have c10: "get_or_empty tree_example (query_id (heap_example 10)) = [11, 12]"
    and d: "\<not> disabled (heap_example 10)" "\<not> disabled (heap_example 11)"
           "disabled (heap_example 12)"
    by (simp_all add: tree_example_def get_or_empty_def heap_example_def query_node_def)
  show "walked tree_example heap_example 10 n = (n = 10 \<or> n = 11)"
    using walked_iff [of tree_example heap_example 10 n]
    by (auto simp: c10 d 11)
qed

lemma example_rootWalked:
  "rootWalked tree_example heap_example 5 = {10, 11, 14}"
  "rootWalked tree_example heap_example 6 = {20}"
proof -
  have "get_or_empty tree_example (query_id (heap_example 5)) = [10, 14]"
       "get_or_empty tree_example (query_id (heap_example 6)) = [20]"
    by (simp_all add: example_nodes example_children)
  then show "rootWalked tree_example heap_example 5 = {10, 11, 14}"
    "rootWalked tree_example heap_example 6 = {20}"
    unfolding rootWalked_def by (auto simp: example_walked)
qed

lemma example_load: "load_example ''p'' = (Map.empty, qm_example, am_example)"
  by (simp add: load_example_def)

lemma example_returns:
  "example_run = Inr (projr example_run)"
proof -
  from example_result obtain res where "example_run = Inr res" by blast
  then show ?thesis by (metis sum.sel(2))
qed

lemma example_facts:
  "res_answerToTermsMap (projr example_run) = [''answer1'' \<mapsto> [10, 11, 14], ''answer2'' \<mapsto> [20]]"
  "res_collectedChildrenMap (projr example_run) = [''t'' \<mapsto> True]"
  "res_termToAnswerMap (projr example_run) ''d'' = None"
  "res_termToAnswerMap (projr example_run) ''x'' = Some answer1"
  "sortDirection (res_heap (projr example_run) 5) = Ascending"
  "sortDirection (res_heap (projr example_run) 12) = Ascending"
  "groups (res_heap (projr example_run) 10) = Some [11, 12]"
  "groups (res_heap (projr example_run) 5) = Some [10, 14]"
  "res_combinedQuery (projr example_run)
     = Some \<lparr>combined_match = MatchAny, combined_groups = [5, 6]\<rparr>"
proof -
  from example_result obtain res where r: "example_run = Inr res"
     and f: "res_answerToTermsMap res = [''answer1'' \<mapsto> [10, 11, 14], ''answer2'' \<mapsto> [20]]"
     "res_collectedChildrenMap res = [''t'' \<mapsto> True]"
     "res_termToAnswerMap res ''d'' = None"
     "res_termToAnswerMap res ''x'' = Some answer1"
     "sortDirection (res_heap res 5) = Ascending"
     "sortDirection (res_heap res 12) = Ascending"
     "groups (res_heap res 10) = Some [11, 12]"
     "groups (res_heap res 5) = Some [10, 14]"
     "res_combinedQuery res = Some \<lparr>combined_match = MatchAny, combined_groups = [5, 6]\<rparr>"
    by blast
  have p: "projr example_run = res" using r by (metis sum.sel(2))
  show "res_answerToTermsMap (projr example_run) = [''answer1'' \<mapsto> [10, 11, 14], ''answer2'' \<mapsto> [20]]"
    "res_collectedChildrenMap (projr example_run) = [''t'' \<mapsto> True]"
    "res_termToAnswerMap (projr example_run) ''d'' = None"
    "res_termToAnswerMap (projr example_run) ''x'' = Some answer1"
    "sortDirection (res_heap (projr example_run) 5) = Ascending"
    "sortDirection (res_heap (projr example_run) 12) = Ascending"
    "groups (res_heap (projr example_run) 10) = Some [11, 12]"
    "groups (res_heap (projr example_run) 5) = Some [10, 14]"
    "res_combinedQuery (projr example_run)
       = Some \<lparr>combined_match = MatchAny, combined_groups = [5, 6]\<rparr>"
    unfolding p by (rule f)+
qed

lemma example_not_isl: "\<not> isl example_run"
  by (subst example_returns) simp

lemma example_terms:
  "[10, 11, 12, 13, 14, 15, 16, 20] = findDescendantsForEntities repo_example [5, 6]"
  by (simp add: repo_example_def)

lemma example_ranked:
  "ranked tree_example heap_example [10, 11, 12, 13, 14, 15, 16, 20] rank_example
   \<and> (\<forall>c \<in> set [10, 11, 12, 13, 14, 15, 16, 20]. rank_example c < Suc (Suc (Suc 0)))"
  by (simp add: ranked_def rank_example_def tree_example_def get_or_empty_def
        heap_example_def query_node_def)

subsection \<open>Inherited sort direction\<close>

text \<open>
  C2, as stated, fails: the root query of answer \<open>answer1\<close> is in the combined tree and resolves
  to the question \<open>q1\<close>, whose sort direction is descending, but the call leaves the root
  ascending as it was. The loop calls \<^verbatim>\<open>walkTree\<close> on the children of a root, not on the root.
\<close>

theorem sortDirection_counterexample:
  "\<not> isl example_run
   \<and> query answer1 = Some 5
   \<and> combined_groups (the (res_combinedQuery (projr example_run))) = [5, 6]
   \<and> resolved am_example qm_example heap_example 5 = Some (answer1, q_single)
   \<and> question_sortDirection q_single = Descending
   \<and> sortDirection (res_heap (projr example_run) 5) = Ascending"
  using example_not_isl example_facts example_resolved(1)
  by (simp add: answer1_def q_single_def)

text \<open>
  C2, amended. The call returns when the fetched nodes are ranked and the fuel exceeds
  every rank. Whenever it returns, every node that the walk from a root query reaches (each
  child of the root in the parent index, and from a reached node that is not disabled its
  children that are not disabled) has the sort direction of the question the root resolves
  to, whatever it carried before, provided no later root's walk reaches the same node; and
  a node that the walk of no resolved root reaches has the sort direction it had before
  the call.
\<close>

theorem sortDirection_inherited:
  assumes load: "getSectionsQuestionsAndAnswers projectId = (sectionMap, questionMap, answerMap)"
      and roots: "rqs = rootQueries questionMap (map snd answerMap)"
      and terms: "terms = findDescendantsForEntities queryRepository rqs"
      and tree: "tree = parentIndex h queryRepository rqs"
  shows "(ranked tree h terms rank \<and> (\<forall>c \<in> set terms. rank c < fuel)
           \<longrightarrow> (\<exists>res. getDataCollectorQuery fuel getSectionsQuestionsAndAnswers h projectId
                          queryRepository = Inr res))
       \<and> (\<forall>res. getDataCollectorQuery fuel getSectionsQuestionsAndAnswers h projectId
                    queryRepository = Inr res \<longrightarrow>
            (rqs = pre @ rootQuery # post
               \<and> resolved answerMap questionMap h rootQuery = Some (a, q)
               \<and> n \<in> rootWalked tree h rootQuery
               \<and> (\<forall>r \<in> set post. resolved answerMap questionMap h r \<noteq> None
                      \<longrightarrow> n \<notin> rootWalked tree h r)
             \<longrightarrow> sortDirection (res_heap res n) = question_sortDirection q)
          \<and> ((\<forall>r \<in> set rqs. resolved answerMap questionMap h r \<noteq> None
                      \<longrightarrow> m \<notin> rootWalked tree h r)
             \<longrightarrow> sortDirection (res_heap res m) = sortDirection (h m)))"
proof (intro conjI allI impI)
  show "\<exists>res. getDataCollectorQuery fuel getSectionsQuestionsAndAnswers h projectId
                          queryRepository = Inr res"
    if "ranked tree h terms rank \<and> (\<forall>c \<in> set terms. rank c < fuel)"
    using run_returns [where getSectionsQuestionsAndAnswers = getSectionsQuestionsAndAnswers
             and projectId = projectId, OF load roots terms tree] that by blast
next
  fix res
  assume run: "getDataCollectorQuery fuel getSectionsQuestionsAndAnswers h projectId
                    queryRepository = Inr res"
  show "sortDirection (res_heap res n) = question_sortDirection q"
    if A: "rqs = pre @ rootQuery # post
               \<and> resolved answerMap questionMap h rootQuery = Some (a, q)
               \<and> n \<in> rootWalked tree h rootQuery
               \<and> (\<forall>r \<in> set post. resolved answerMap questionMap h r \<noteq> None
                      \<longrightarrow> n \<notin> rootWalked tree h r)"
  proof -
    have r: "rootQueries questionMap (map snd answerMap) = pre @ rootQuery # post"
      using A roots by simp
    have t: "tree = parentIndex h queryRepository (pre @ rootQuery # post)"
      using A tree by simp
    from A have o: "resolved answerMap questionMap h rootQuery = Some (a, q)"
      and w: "n \<in> rootWalked tree h rootQuery"
      and l: "\<forall>r \<in> set post. resolved answerMap questionMap h r \<noteq> None
                      \<longrightarrow> n \<notin> rootWalked tree h r"
      by blast+
    show ?thesis
      by (rule sortDirection_of_reached [OF load run r t o w l])
  qed
  show "sortDirection (res_heap res m) = sortDirection (h m)"
    if B: "\<forall>r \<in> set rqs. resolved answerMap questionMap h r \<noteq> None
                      \<longrightarrow> m \<notin> rootWalked tree h r"
  proof -
    have t: "tree = parentIndex h queryRepository (rootQueries questionMap (map snd answerMap))"
      using tree roots by simp
    have n: "\<forall>r \<in> set (rootQueries questionMap (map snd answerMap)).
                    resolved answerMap questionMap h r \<noteq> None \<longrightarrow> m \<notin> rootWalked tree h r"
      using B roots by simp
    show ?thesis
      by (rule sortDirection_untouched [OF load run t n])
  qed
qed

text \<open>
  C2, amended, on the example: the call returns; node 11 is reached from the root of
  \<open>answer1\<close> and from no later root, and turns from ascending to descending; the root at
  address 5 is reached by no walk and stays ascending.
\<close>

theorem sortDirection_inherited_witness:
  "\<not> isl example_run
   \<and> sortDirection (heap_example 11) = Ascending
   \<and> sortDirection (res_heap (projr example_run) 11) = Descending
   \<and> sortDirection (res_heap (projr example_run) 5) = Ascending"
proof -
  have roots: "[5, 6] = rootQueries qm_example (map snd am_example)"
    by (simp add: example_roots)
  have tree: "tree_example = parentIndex heap_example repo_example [5, 6]"
    by (rule example_parentIndex [symmetric])
  note T = sortDirection_inherited
             [where getSectionsQuestionsAndAnswers = load_example and projectId = "''p''"
                and fuel = "Suc (Suc (Suc 0))" and rank = rank_example
                and pre = "[]" and rootQuery = 5 and post = "[6]" and a = answer1 and q = q_single
                and n = 11 and m = 5,
              OF example_load roots example_terms tree]
  from T example_ranked obtain res where
    run: "getDataCollectorQuery (Suc (Suc (Suc 0))) load_example heap_example ''p'' repo_example
            = Inr res"
    by blast
  then have ex: "example_run = Inr res" by (simp add: example_run_def)
  have reached: "[5, 6] = [] @ 5 # [6]
               \<and> resolved am_example qm_example heap_example 5 = Some (answer1, q_single)
               \<and> 11 \<in> rootWalked tree_example heap_example 5
               \<and> (\<forall>r \<in> set [6]. resolved am_example qm_example heap_example r \<noteq> None
                      \<longrightarrow> 11 \<notin> rootWalked tree_example heap_example r)"
    by (simp add: example_resolved example_rootWalked)
  have unreached: "\<forall>r \<in> set [5, 6]. resolved am_example qm_example heap_example r \<noteq> None
                      \<longrightarrow> 5 \<notin> rootWalked tree_example heap_example r"
    by (simp add: example_rootWalked)
  from T run reached have 1: "sortDirection (res_heap res 11) = question_sortDirection q_single"
    by blast
  from T run unreached have 2: "sortDirection (res_heap res 5) = sortDirection (heap_example 5)"
    by blast
  have h: "sortDirection (heap_example 5) = Ascending" "sortDirection (heap_example 11) = Ascending"
    by (simp_all add: heap_example_def query_node_def)
  from 1 2 h show ?thesis
    unfolding ex by (simp add: q_single_def)
qed

subsection \<open>Collected children\<close>




subsection \<open>Disabled nodes\<close>

text \<open>
  C5, as stated, fails: node 12 is disabled and in the combined tree (it is a child of node
  10 under the root of \<open>answer1\<close>), but the loop over the children of node 10 skips it: its id is
  not a key of the term-to-answer map and it is in no list of the answer-to-terms map.
\<close>

theorem disabled_counterexample:
  "\<not> isl example_run
   \<and> disabled (heap_example 12)
   \<and> query_id (heap_example 12) = ''d''
   \<and> groups (res_heap (projr example_run) 5) = Some [10, 14]
   \<and> groups (res_heap (projr example_run) 10) = Some [11, 12]
   \<and> res_termToAnswerMap (projr example_run) ''d'' = None
   \<and> res_answerToTermsMap (projr example_run) ''answer1'' = Some [10, 11, 14]
   \<and> res_answerToTermsMap (projr example_run) ''answer2'' = Some [20]"
  using example_not_isl example_facts
  by (simp add: example_nodes)

text \<open>
  C5, amended. The call returns when the fetched nodes are ranked and the fuel exceeds
  every rank. Whenever it returns: every direct child of a resolved root query in the
  parent index, disabled or not, is in the answer-to-terms list of the root's answer and its
  id is a key of term-to-answer; a node is in the answer-to-terms list of an answer id
  exactly when it is reached from a direct child of a resolved root of an answer of that id
  through nodes that are not disabled, and is that child itself if it is disabled; and an
  id is a key of term-to-answer exactly when it is the id of a node so reached.
\<close>

theorem disabled_registration:
  assumes load: "getSectionsQuestionsAndAnswers projectId = (sectionMap, questionMap, answerMap)"
      and roots: "rqs = rootQueries questionMap (map snd answerMap)"
      and terms: "terms = findDescendantsForEntities queryRepository rqs"
      and tree: "tree = parentIndex h queryRepository rqs"
  shows "(ranked tree h terms rank \<and> (\<forall>c \<in> set terms. rank c < fuel)
           \<longrightarrow> (\<exists>res. getDataCollectorQuery fuel getSectionsQuestionsAndAnswers h projectId
                          queryRepository = Inr res))
       \<and> (\<forall>res. getDataCollectorQuery fuel getSectionsQuestionsAndAnswers h projectId
                    queryRepository = Inr res \<longrightarrow>
            (r \<in> set rqs \<and> resolved answerMap questionMap h r = Some (a, q)
                \<and> d \<in> set (get_or_empty tree (query_id (h r)))
              \<longrightarrow> d \<in> set (get_or_empty (res_answerToTermsMap res) (answer_id a))
                  \<and> res_termToAnswerMap res (query_id (h d)) \<noteq> None)
          \<and> (n \<in> set (get_or_empty (res_answerToTermsMap res) k))
             = (\<exists>r' \<in> set rqs. \<exists>a' q'. resolved answerMap questionMap h r' = Some (a', q')
                    \<and> answer_id a' = k
                    \<and> (\<exists>c \<in> set (get_or_empty tree (query_id (h r'))).
                          walked tree h c n \<and> (disabled (h n) \<longrightarrow> n = c)))
          \<and> (res_termToAnswerMap res k \<noteq> None)
             = (\<exists>r' \<in> set rqs. resolved answerMap questionMap h r' \<noteq> None
                    \<and> (\<exists>n' \<in> rootWalked tree h r'. query_id (h n') = k)))"
proof (intro conjI allI)
  show "ranked tree h terms rank \<and> (\<forall>c \<in> set terms. rank c < fuel)
           \<longrightarrow> (\<exists>res. getDataCollectorQuery fuel getSectionsQuestionsAndAnswers h projectId
                          queryRepository = Inr res)"
    by (rule run_returns [where getSectionsQuestionsAndAnswers = getSectionsQuestionsAndAnswers
             and projectId = projectId, OF load roots terms tree])
next
  fix res
  show "getDataCollectorQuery fuel getSectionsQuestionsAndAnswers h projectId
                    queryRepository = Inr res \<longrightarrow>
            (r \<in> set rqs \<and> resolved answerMap questionMap h r = Some (a, q)
                \<and> d \<in> set (get_or_empty tree (query_id (h r)))
              \<longrightarrow> d \<in> set (get_or_empty (res_answerToTermsMap res) (answer_id a))
                  \<and> res_termToAnswerMap res (query_id (h d)) \<noteq> None)
          \<and> (n \<in> set (get_or_empty (res_answerToTermsMap res) k))
             = (\<exists>r' \<in> set rqs. \<exists>a' q'. resolved answerMap questionMap h r' = Some (a', q')
                    \<and> answer_id a' = k
                    \<and> (\<exists>c \<in> set (get_or_empty tree (query_id (h r'))).
                          walked tree h c n \<and> (disabled (h n) \<longrightarrow> n = c)))
          \<and> (res_termToAnswerMap res k \<noteq> None)
             = (\<exists>r' \<in> set rqs. resolved answerMap questionMap h r' \<noteq> None
                    \<and> (\<exists>n' \<in> rootWalked tree h r'. query_id (h n') = k))"
  proof
    assume run: "getDataCollectorQuery fuel getSectionsQuestionsAndAnswers h projectId
                    queryRepository = Inr res"
    note g = registration_of_run [OF load run roots tree,
               where r = r and a = a and q = q and d = d and n = n and k = k]
    from g show "(r \<in> set rqs \<and> resolved answerMap questionMap h r = Some (a, q)
                \<and> d \<in> set (get_or_empty tree (query_id (h r)))
              \<longrightarrow> d \<in> set (get_or_empty (res_answerToTermsMap res) (answer_id a))
                  \<and> res_termToAnswerMap res (query_id (h d)) \<noteq> None)
          \<and> (n \<in> set (get_or_empty (res_answerToTermsMap res) k))
             = (\<exists>r' \<in> set rqs. \<exists>a' q'. resolved answerMap questionMap h r' = Some (a', q')
                    \<and> answer_id a' = k
                    \<and> (\<exists>c \<in> set (get_or_empty tree (query_id (h r'))).
                          walked tree h c n \<and> (disabled (h n) \<longrightarrow> n = c)))
          \<and> (res_termToAnswerMap res k \<noteq> None)
             = (\<exists>r' \<in> set rqs. resolved answerMap questionMap h r' \<noteq> None
                    \<and> (\<exists>n' \<in> rootWalked tree h r'. query_id (h n') = k))"
      by blast
  qed
qed

text \<open>
  C5, amended, on the example: the call returns; the disabled node 14 is a direct child of
  the root of \<open>answer1\<close> and is registered; the disabled node 12, a child of the walked node
  10, is in neither map.
\<close>

theorem disabled_registration_witness:
  "\<not> isl example_run
   \<and> disabled (heap_example 14)
   \<and> 14 \<in> set (get_or_empty (res_answerToTermsMap (projr example_run)) ''answer1'')
   \<and> res_termToAnswerMap (projr example_run) ''x'' \<noteq> None
   \<and> disabled (heap_example 12)
   \<and> 12 \<notin> set (get_or_empty (res_answerToTermsMap (projr example_run)) ''answer1'')
   \<and> res_termToAnswerMap (projr example_run) ''d'' = None"
proof -
  have roots: "[5, 6] = rootQueries qm_example (map snd am_example)"
    by (simp add: example_roots)
  have tree: "tree_example = parentIndex heap_example repo_example [5, 6]"
    by (rule example_parentIndex [symmetric])
  note T = disabled_registration
             [where getSectionsQuestionsAndAnswers = load_example and projectId = "''p''"
                and fuel = "Suc (Suc (Suc 0))" and rank = rank_example
                and r = 5 and a = answer1 and q = q_single and d = 14,
              OF example_load roots example_terms tree]
  from T [where n = 12 and k = "''answer1''"] example_ranked obtain res where
    run: "getDataCollectorQuery (Suc (Suc (Suc 0))) load_example heap_example ''p'' repo_example
            = Inr res"
    by blast
  then have ex: "example_run = Inr res" by (simp add: example_run_def)
  have pre1: "5 \<in> set [5, 6::addr] \<and> resolved am_example qm_example heap_example 5 = Some (answer1, q_single)
            \<and> 14 \<in> set (get_or_empty tree_example (query_id (heap_example 5)))"
    by (simp add: example_resolved example_nodes example_children)
  from T [where n = 12 and k = "''answer1''"] run pre1
  have 1: "14 \<in> set (get_or_empty (res_answerToTermsMap res) (answer_id answer1))
           \<and> res_termToAnswerMap res (query_id (heap_example 14)) \<noteq> None"
    by blast
  have no12: "\<not> (\<exists>r' \<in> set [5, 6::addr]. \<exists>a' q'.
                 resolved am_example qm_example heap_example r' = Some (a', q')
                 \<and> answer_id a' = ''answer1''
                 \<and> (\<exists>c \<in> set (get_or_empty tree_example (query_id (heap_example r'))).
                       walked tree_example heap_example c 12
                         \<and> (disabled (heap_example 12) \<longrightarrow> 12 = c)))"
    by (simp add: example_nodes example_children example_walked)
  from T [where n = 12 and k = "''answer1''"] run no12
  have 2: "12 \<notin> set (get_or_empty (res_answerToTermsMap res) ''answer1'')"
    by blast
  have nod: "\<not> (\<exists>r' \<in> set [5, 6::addr]. resolved am_example qm_example heap_example r' \<noteq> None
                 \<and> (\<exists>n' \<in> rootWalked tree_example heap_example r'. query_id (heap_example n') = ''d''))"
    by (simp add: example_rootWalked example_nodes)
  from T [where n = 12 and k = "''d''"] run nod
  have 3: "res_termToAnswerMap res ''d'' = None"
    by blast
  from 1 2 3 show ?thesis
    unfolding ex by (simp add: answer1_def example_nodes)
qed

section \<open>The query tree container\<close>

lemma classified_Nil: "container_append c (classified []) = (c :: 'f QueryTreeContainer)"
  by (cases c) (simp add: classified_def container_append_def)

lemma classified_append:
  "classified (xs @ ys) = container_append (classified xs) (classified ys)"
  by (simp add: classified_def container_append_def)

lemma container_append_assoc: "container_append (container_append c d) e = container_append c (container_append d e)"
  by (simp add: container_append_def)

lemma classify_one:
  "(if truthy (node_id node) then
          (if truthy (node_category node) then
             (let c' = c\<lparr>c_terms := c_terms c @ [node]\<rparr> in
              (case parentNode of
                 Some p \<Rightarrow>
                   if truthy (node_id p) \<and> truthy (node_category p)
                   then c'\<lparr>c_termsByNestedTerm := c_termsByNestedTerm c' @ [p]\<rparr>
                   else if \<not> node_disabled node
                   then c'\<lparr>c_parentTerms := c_parentTerms c' @ [node]\<rparr>
                   else c'
               | None \<Rightarrow>
                   if \<not> node_disabled node
                   then c'\<lparr>c_parentTerms := c_parentTerms c' @ [node]\<rparr>
                   else c'))
           else c\<lparr>c_groups := c_groups c @ [node]\<rparr>)
        else c) = container_append (c :: 'f QueryTreeContainer) (classified [(node, parentNode)])"
  by (cases c) (auto simp: classified_def container_append_def is_term_def is_group_def parent_is_term_def Let_def
        split: option.splits)

lemma indexTree_Some:
  "indexTree (Some node) parentNode c =
     indexGroups (children node) node (container_append c (classified [(node, parentNode)]))"
  unfolding indexTree.simps classify_one
  by (simp add: children_def Let_def split: option.splits)

lemma indexTree_indexGroups_classified:
  "(case nodeopt of None \<Rightarrow> True
    | Some n \<Rightarrow> indexTree (Some n) parentNode (c :: 'f QueryTreeContainer)
        = container_append c (classified (preorder n parentNode)))"
  "indexGroups gs parentNode' (c' :: 'f QueryTreeContainer)
     = container_append c' (classified (preorders gs parentNode'))"
proof (induction nodeopt parentNode c and gs parentNode' c' rule: indexTree_indexGroups.induct)
  case (1 parentNode c)
  show ?case by simp
next
  case (2 node parentNode c)
  have "indexTree (Some node) parentNode c
          = container_append c (classified (preorder node parentNode))"
  proof (cases "node_groups node")
    case None
    then show ?thesis
      by (simp add: indexTree_Some children_def del: indexTree.simps)
  next
    case (Some gs)
    show ?thesis
    proof (cases "gs = []")
      case True
      with Some show ?thesis
        by (simp add: indexTree_Some children_def del: indexTree.simps)
    next
      case False
      have "indexGroups gs node (container_append c (classified [(node, parentNode)]))
              = container_append (container_append c (classified [(node, parentNode)])) (classified (preorders gs node))"
        using "2.IH" [OF _ Some False] by (simp add: classify_one)
      then show ?thesis
        using Some
        by (simp add: indexTree_Some children_def container_append_assoc
              classified_append [of "[(node, parentNode)]", simplified, symmetric]
              del: indexTree.simps)
    qed
  qed
  then show ?case by simp
next
  case (3 parentNode c)
  show ?case by (simp add: classified_Nil)
next
  case (4 g gs parentNode c)
  then show ?case
    by (simp add: classified_append container_append_assoc del: indexTree.simps preorder.simps)
qed

lemma indexTree_classified:
  "indexTree (Some n) parentNode (c :: 'f QueryTreeContainer)
     = container_append c (classified (preorder n parentNode))"
  using indexTree_indexGroups_classified(1) [where nodeopt = "Some n" and parentNode = parentNode and c = c]
  by (simp del: indexTree.simps preorder.simps)

lemma new_QueryTreeContainer_classified:
  "new_QueryTreeContainer (Some root) = classified (preorder root None)"
  unfolding new_QueryTreeContainer_def indexTree_classified
  by (simp add: container_append_def del: preorder.simps)

lemma new_QueryTreeContainer_None:
  "new_QueryTreeContainer None = classified []"
  by (simp add: new_QueryTreeContainer_def classified_def)

lemmas tree_defs =
  term_node_def group_node_def medication_def unit_term_def measurement_def report_def
  anonymous_def any_group_def not_group_def tree_root_def

lemma preorder_tree_root:
  "preorder tree_root None =
     [(tree_root, None), (any_group, Some tree_root), (medication, Some any_group),
      (measurement, Some any_group), (unit_term, Some measurement),
      (not_group, Some tree_root), (report, Some not_group)]"
  by (simp add: children_def tree_root_def any_group_def not_group_def group_node_def
        medication_def measurement_def unit_term_def report_def term_node_def)

lemma tree_classes:
  "is_group tree_root" "is_group any_group" "is_group not_group"
  "is_term medication" "is_term measurement" "is_term unit_term" "is_term report"
  "\<not> is_term tree_root" "\<not> is_term any_group" "\<not> is_term not_group"
  "\<not> is_group medication" "\<not> is_group measurement" "\<not> is_group unit_term" "\<not> is_group report"
  "node_disabled report" "\<not> node_disabled medication" "\<not> node_disabled measurement"
  "\<not> node_disabled unit_term"
  by (simp_all add: is_term_def is_group_def truthy_def tree_defs)

text \<open>
  C9. The four lists of a container are the classification of the pre-order enumeration
  of its tree, element for element and in that order, so two containers constructed from
  the same tree have the same lists; what a traversal appends does not depend on the lists
  it appends to.
\<close>

theorem construction_is_preorder_classification:
  "new_QueryTreeContainer (Some root) = classified (preorder root None)
   \<and> new_QueryTreeContainer None = (classified [] :: 'f QueryTreeContainer)
   \<and> indexTree (Some root) None (c :: 'f QueryTreeContainer)
       = container_append c (new_QueryTreeContainer (Some root))"
  by (simp add: new_QueryTreeContainer_classified new_QueryTreeContainer_None indexTree_classified
        del: indexTree.simps preorder.simps)

text \<open>
  C9 on the README tree.
\<close>

theorem construction_is_preorder_classification_witness:
  "getAllTerms (new_QueryTreeContainer (Some tree_root)) = [medication, measurement, unit_term, report]
   \<and> c_groups (new_QueryTreeContainer (Some tree_root)) = [tree_root, any_group, not_group]
   \<and> getParentTerms (new_QueryTreeContainer (Some tree_root)) = [medication, measurement]
   \<and> c_termsByNestedTerm (new_QueryTreeContainer (Some tree_root)) = [measurement]"
proof -
  have "new_QueryTreeContainer (Some tree_root) = classified (preorder tree_root None)"
    using construction_is_preorder_classification [of tree_root] by blast
  then show ?thesis
    unfolding preorder_tree_root
    by (simp add: classified_def getAllTerms_def getParentTerms_def tree_classes parent_is_term_def)
qed

text \<open>
  C7, as stated, fails: a node with a category and an empty id is not among the terms (and
  a node without id is not among the groups either).
\<close>

theorem classification_counterexample:
  "node_id anonymous = Some []
   \<and> truthy (node_category anonymous)
   \<and> getAllTerms (new_QueryTreeContainer (Some anonymous)) = [medication]
   \<and> c_groups (new_QueryTreeContainer (Some anonymous)) = []"
  by (simp add: new_QueryTreeContainer_def getAllTerms_def truthy_def anonymous_def
        medication_def term_node_def)

text \<open>
  C7, amended. The terms of a container are the nodes of the tree with a non-empty id and
  a non-empty category, the groups the other nodes with a non-empty id; a term is among the
  parent terms if and only if it is not disabled and the node it is reached from is not a
  term (there is none, or it has no category, or it has no id).
\<close>

theorem classification_rule:
  "set (getAllTerms (new_QueryTreeContainer (Some root)))
     = {n. \<exists>p. (n, p) \<in> set (preorder root None) \<and> truthy (node_id n) \<and> truthy (node_category n)}
   \<and> set (c_groups (new_QueryTreeContainer (Some root)))
     = {n. \<exists>p. (n, p) \<in> set (preorder root None) \<and> truthy (node_id n) \<and> \<not> truthy (node_category n)}
   \<and> set (getParentTerms (new_QueryTreeContainer (Some root)))
     = {n. \<exists>p. (n, p) \<in> set (preorder root None) \<and> is_term n
               \<and> \<not> node_disabled n \<and> \<not> parent_is_term p}"
  unfolding new_QueryTreeContainer_classified getAllTerms_def getParentTerms_def
  by (force simp: classified_def is_term_def is_group_def image_iff simp del: preorder.simps)

text \<open>
  C7, amended, on the README tree.
\<close>

theorem classification_rule_witness:
  "medication \<in> set (getAllTerms (new_QueryTreeContainer (Some tree_root)))
   \<and> report \<in> set (getAllTerms (new_QueryTreeContainer (Some tree_root)))
   \<and> report \<notin> set (getParentTerms (new_QueryTreeContainer (Some tree_root)))
   \<and> unit_term \<notin> set (getParentTerms (new_QueryTreeContainer (Some tree_root)))
   \<and> measurement \<in> set (getParentTerms (new_QueryTreeContainer (Some tree_root)))
   \<and> any_group \<in> set (c_groups (new_QueryTreeContainer (Some tree_root)))"
proof -
  note r = classification_rule [of tree_root, unfolded preorder_tree_root]
  have d: "distinct [tree_root, any_group, medication, measurement, unit_term, not_group, report]"
    by (simp add: tree_defs)
  show ?thesis
    unfolding r [THEN conjunct1] r [THEN conjunct2, THEN conjunct1]
              r [THEN conjunct2, THEN conjunct2]
    using d tree_classes
    by (auto simp: parent_is_term_def is_term_def is_group_def)
qed

text \<open>
  C3. The code does not do what the claim and the doc comment of \<^verbatim>\<open>getParentTerm\<close> say. The
  nested-term index is the list of the enclosing terms themselves, and the lookup compares
  the given id with the id of each entry: for the measurement \<open>ldl\<close> with the nested
  criterion \<open>unit\<close>, the lookup of \<open>unit\<close> finds nothing, and the lookup of \<open>ldl\<close>, which has no
  enclosing term, returns the measurement itself.
\<close>

theorem getParentTerm_nested:
  "c_termsByNestedTerm (new_QueryTreeContainer (Some measurement)) = [measurement]
   \<and> getParentTerm (new_QueryTreeContainer (Some measurement)) ''unit'' = None
   \<and> getParentTerm (new_QueryTreeContainer (Some measurement)) ''ldl'' = Some measurement"
  by (simp add: new_QueryTreeContainer_def getParentTerm_def truthy_def measurement_def
        unit_term_def term_node_def)

text \<open>
  What \<^verbatim>\<open>getParentTerm\<close> returns always has the id asked for.
\<close>

lemma getParentTerm_own_id:
  "getParentTerm c termId = Some x \<Longrightarrow> node_id x = Some termId"
  by (auto simp: getParentTerm_def find_Some_iff)

lemma classified_ids:
  assumes "n \<in> set (c_terms (classified occ)) \<union> set (c_groups (classified occ))
             \<union> set (c_parentTerms (classified occ)) \<union> set (c_termsByNestedTerm (classified occ))"
  shows "truthy (node_id n)"
  using assms
  by (auto simp: classified_def is_term_def is_group_def parent_is_term_def split: option.splits)

lemma indexGroups_foldl:
  "indexGroups gs parentNode c = foldl (\<lambda>c g. indexTree (Some g) (Some parentNode) c) c gs"
  by (induction gs arbitrary: c) (simp_all del: indexTree.simps)

lemma indexTree_parent_without_id:
  assumes "\<not> truthy (node_id n)"
  shows "indexTree (Some g) (Some n) c = indexTree (Some g) None (c :: 'f QueryTreeContainer)"
proof -
  have "classified [(g, Some n)] = classified [(g, None)]"
    using assms by (simp add: classified_def parent_is_term_def is_term_def)
  then show ?thesis
    by (simp add: indexTree_Some del: indexTree.simps)
qed

lemma preorders_member:
  "g \<in> set gs \<Longrightarrow> (g, Some p) \<in> set (preorders gs p)"
  by (induction gs) auto

lemma classified_without_id:
  assumes "\<not> truthy (node_id n)"
  shows "classified (preorder n parentNode) = classified (preorders (children n) n)"
  using assms by (simp add: classified_def is_term_def is_group_def)

text \<open>
  C10. A node whose id is undefined or empty is in none of the four lists of any container.
  Its children are traversed and classified as usual: indexing the node appends to the
  container the classification of the pre-order enumeration of its children, and a
  container constructed from it has as terms the nodes below it with an id and a category,
  as groups the nodes below it with an id and no category, as parent terms the terms below
  it that are not disabled and not reached from a term, and as nested-term entries the
  enclosing terms of the terms below it, each list in pre-order. In particular every child
  with an id is a term or a group of that container, and a child that is a term and not
  disabled is a parent term. Indexing the node is indexing its children in order, each as a
  node that is not inside a term.
\<close>

theorem node_without_id:
  assumes "\<not> truthy (node_id n)"
  shows "n \<notin> set (c_terms (new_QueryTreeContainer rootNode))
       \<and> n \<notin> set (c_groups (new_QueryTreeContainer rootNode))
       \<and> n \<notin> set (c_parentTerms (new_QueryTreeContainer rootNode))
       \<and> n \<notin> set (c_termsByNestedTerm (new_QueryTreeContainer rootNode))
       \<and> indexTree (Some n) parentNode c
           = foldl (\<lambda>c g. indexTree (Some g) None c) (c :: 'f QueryTreeContainer) (children n)
       \<and> indexTree (Some n) parentNode c
           = container_append c (classified (preorders (children n) n))
       \<and> c_terms (new_QueryTreeContainer (Some n))
           = map fst (filter (\<lambda>(g, p). truthy (node_id g) \<and> truthy (node_category g))
                        (preorders (children n) n))
       \<and> c_groups (new_QueryTreeContainer (Some n))
           = map fst (filter (\<lambda>(g, p). truthy (node_id g) \<and> \<not> truthy (node_category g))
                        (preorders (children n) n))
       \<and> c_parentTerms (new_QueryTreeContainer (Some n))
           = map fst (filter (\<lambda>(g, p). truthy (node_id g) \<and> truthy (node_category g)
                                 \<and> \<not> parent_is_term p \<and> \<not> node_disabled g)
                        (preorders (children n) n))
       \<and> c_termsByNestedTerm (new_QueryTreeContainer (Some n))
           = map (\<lambda>(g, p). the p)
               (filter (\<lambda>(g, p). truthy (node_id g) \<and> truthy (node_category g) \<and> parent_is_term p)
                  (preorders (children n) n))
       \<and> (\<forall>g \<in> set (children n). truthy (node_id g) \<and> truthy (node_category g)
             \<longrightarrow> g \<in> set (c_terms (new_QueryTreeContainer (Some n)))
                 \<and> (\<not> node_disabled g
                      \<longrightarrow> g \<in> set (c_parentTerms (new_QueryTreeContainer (Some n)))))
       \<and> (\<forall>g \<in> set (children n). truthy (node_id g) \<and> \<not> truthy (node_category g)
             \<longrightarrow> g \<in> set (c_groups (new_QueryTreeContainer (Some n))))"
proof -
  obtain occ where occ: "new_QueryTreeContainer rootNode = classified occ"
    using new_QueryTreeContainer_classified new_QueryTreeContainer_None
    by (cases rootNode) blast+
  have lists: "n \<notin> set (c_terms (classified occ)) \<union> set (c_groups (classified occ))
             \<union> set (c_parentTerms (classified occ)) \<union> set (c_termsByNestedTerm (classified occ))"
    using classified_ids [of n occ] assms by blast
  have "classified [(n, parentNode)]
          = \<lparr>c_groups = [], c_terms = [], c_parentTerms = [], c_termsByNestedTerm = []\<rparr>"
    using assms by (simp add: classified_def is_term_def is_group_def)
  then have same: "container_append c (classified [(n, parentNode)]) = c"
    by (cases c) (simp add: container_append_def)
  have "indexTree (Some n) parentNode c
          = indexGroups (children n) n (container_append c (classified [(n, parentNode)]))"
    by (rule indexTree_Some)
  also have "\<dots> = foldl (\<lambda>c g. indexTree (Some g) (Some n) c) c (children n)"
    unfolding same by (rule indexGroups_foldl)
  also have "\<dots> = foldl (\<lambda>c g. indexTree (Some g) None c) c (children n)"
    by (simp only: indexTree_parent_without_id [OF assms])
  finally have fold: "indexTree (Some n) parentNode c
           = foldl (\<lambda>c g. indexTree (Some g) None c) c (children n)" .
  have abs: "indexTree (Some n) parentNode c
           = container_append c (classified (preorders (children n) n))"
    unfolding indexTree_classified classified_without_id [OF assms] ..
  have new: "new_QueryTreeContainer (Some n) = classified (preorders (children n) n)"
    unfolding new_QueryTreeContainer_classified classified_without_id [OF assms] ..
  have l1: "c_terms (new_QueryTreeContainer (Some n))
           = map fst (filter (\<lambda>(g, p). truthy (node_id g) \<and> truthy (node_category g))
                        (preorders (children n) n))"
    unfolding new by (simp add: classified_def is_term_def)
  have l2: "c_groups (new_QueryTreeContainer (Some n))
           = map fst (filter (\<lambda>(g, p). truthy (node_id g) \<and> \<not> truthy (node_category g))
                        (preorders (children n) n))"
    unfolding new by (simp add: classified_def is_group_def)
  have l3: "c_parentTerms (new_QueryTreeContainer (Some n))
           = map fst (filter (\<lambda>(g, p). truthy (node_id g) \<and> truthy (node_category g)
                                 \<and> \<not> parent_is_term p \<and> \<not> node_disabled g)
                        (preorders (children n) n))"
    unfolding new by (simp add: classified_def is_term_def conj_ac)
  have l4: "c_termsByNestedTerm (new_QueryTreeContainer (Some n))
           = map (\<lambda>(g, p). the p)
               (filter (\<lambda>(g, p). truthy (node_id g) \<and> truthy (node_category g) \<and> parent_is_term p)
                  (preorders (children n) n))"
    unfolding new by (simp add: classified_def is_term_def conj_ac)
  have np: "\<not> parent_is_term (Some n)"
    using assms by (simp add: parent_is_term_def is_term_def)
  have d1: "\<forall>g \<in> set (children n). truthy (node_id g) \<and> truthy (node_category g)
             \<longrightarrow> g \<in> set (c_terms (new_QueryTreeContainer (Some n)))
                 \<and> (\<not> node_disabled g
                      \<longrightarrow> g \<in> set (c_parentTerms (new_QueryTreeContainer (Some n))))"
  proof (intro ballI impI)
    fix g assume g: "g \<in> set (children n)"
      and t: "truthy (node_id g) \<and> truthy (node_category g)"
    from preorders_member [OF g] have m: "(g, Some n) \<in> set (preorders (children n) n)" .
    have "g \<in> set (c_terms (new_QueryTreeContainer (Some n)))"
      unfolding l1 using m t by (force simp: image_iff)
    moreover have "\<not> node_disabled g
                      \<longrightarrow> g \<in> set (c_parentTerms (new_QueryTreeContainer (Some n)))"
      unfolding l3 using m t np by (force simp: image_iff)
    ultimately show "g \<in> set (c_terms (new_QueryTreeContainer (Some n)))
                 \<and> (\<not> node_disabled g
                      \<longrightarrow> g \<in> set (c_parentTerms (new_QueryTreeContainer (Some n))))"
      by blast
  qed
  have d2: "\<forall>g \<in> set (children n). truthy (node_id g) \<and> \<not> truthy (node_category g)
             \<longrightarrow> g \<in> set (c_groups (new_QueryTreeContainer (Some n)))"
  proof (intro ballI impI)
    fix g assume g: "g \<in> set (children n)"
      and t: "truthy (node_id g) \<and> \<not> truthy (node_category g)"
    from preorders_member [OF g] have m: "(g, Some n) \<in> set (preorders (children n) n)" .
    show "g \<in> set (c_groups (new_QueryTreeContainer (Some n)))"
      unfolding l2 using m t by (force simp: image_iff)
  qed
  from lists fold abs l1 l2 l3 l4 d1 d2 show ?thesis
    unfolding occ by blast
qed

text \<open>
  C10 on the node without id over the README subtrees: the four lists of the container
  built from it.
\<close>

theorem node_without_id_witness:
  "\<not> truthy (node_id anonymous_wide)
   \<and> c_terms (new_QueryTreeContainer (Some anonymous_wide))
       = [medication, measurement, unit_term, report]
   \<and> c_groups (new_QueryTreeContainer (Some anonymous_wide)) = [not_group]
   \<and> c_parentTerms (new_QueryTreeContainer (Some anonymous_wide)) = [medication, measurement]
   \<and> c_termsByNestedTerm (new_QueryTreeContainer (Some anonymous_wide)) = [measurement]
   \<and> anonymous_wide \<notin> set (c_terms (new_QueryTreeContainer (Some anonymous_wide)))
   \<and> anonymous_wide \<notin> set (c_groups (new_QueryTreeContainer (Some anonymous_wide)))"
proof -
  have a: "\<not> truthy (node_id anonymous_wide)"
    by (simp add: truthy_def anonymous_wide_def)
  note r = node_without_id [OF a, of "Some anonymous_wide" None
             "\<lparr>c_groups = [], c_terms = [], c_parentTerms = [], c_termsByNestedTerm = []\<rparr>"]
  have po: "preorders (children anonymous_wide) anonymous_wide
              = [(medication, Some anonymous_wide), (measurement, Some anonymous_wide),
                 (unit_term, Some measurement), (not_group, Some anonymous_wide),
                 (report, Some not_group)]"
    by (simp add: children_def anonymous_wide_def not_group_def group_node_def
          medication_def measurement_def unit_term_def report_def term_node_def)
  have cl: "truthy (node_id medication)" "truthy (node_category medication)"
    "truthy (node_id measurement)" "truthy (node_category measurement)"
    "truthy (node_id unit_term)" "truthy (node_category unit_term)"
    "truthy (node_id report)" "truthy (node_category report)"
    "truthy (node_id not_group)" "\<not> truthy (node_category not_group)"
    "\<not> parent_is_term (Some anonymous_wide)" "\<not> parent_is_term (Some not_group)"
    "parent_is_term (Some measurement)"
    "node_disabled report" "\<not> node_disabled medication" "\<not> node_disabled measurement"
    by (simp_all add: truthy_def parent_is_term_def is_term_def tree_defs anonymous_wide_def)
  have 1: "c_terms (new_QueryTreeContainer (Some anonymous_wide))
       = [medication, measurement, unit_term, report]"
    using r unfolding po by (simp add: cl)
  have 2: "c_groups (new_QueryTreeContainer (Some anonymous_wide)) = [not_group]"
    using r unfolding po by (simp add: cl)
  have 3: "c_parentTerms (new_QueryTreeContainer (Some anonymous_wide)) = [medication, measurement]"
    using r unfolding po by (simp add: cl)
  have 4: "c_termsByNestedTerm (new_QueryTreeContainer (Some anonymous_wide)) = [measurement]"
    using r unfolding po by (simp add: cl)
  from a r 1 2 3 4 show ?thesis by blast
qed

end

